theory Spec2Isabelle
  imports Complex_Main
begin

section \<open>Data model\<close>

text \<open>
  The flow and supply functions of \<^verbatim>\<open>src/server.js\<close> (lines 295 to 757). JavaScript
  numbers are read as real numbers: rounding error, \<^verbatim>\<open>NaN\<close> and the infinities are
  not part of the model. Household counts are integers (the column is
  \<^verbatim>\<open>INTEGER\<close>), coordinates and capacities are reals.
\<close>

record pos =
  lat :: real
  lng :: real

text \<open>A row of \<^verbatim>\<open>tanks\<close> or of \<^verbatim>\<open>gate_valves\<close>: the fields the functions read.\<close>

record located =
  name :: string
  latitude :: real
  longitude :: real

record tank = located +
  isActive :: bool

text \<open>
  \<^verbatim>\<open>parentValveId\<close> is \<^verbatim>\<open>null\<close> (\<open>None\<close>) or a valve id; \<^verbatim>\<open>mandal\<close> is a
  column without \<^verbatim>\<open>NOT NULL\<close>: \<^verbatim>\<open>null\<close> (\<open>None\<close>) or a text.
\<close>

record valve = located +
  valveId :: string
  isOpen :: bool
  category :: string
  parentValveId :: "string option"
  households :: int
  mandal :: "string option"

text \<open>
  \<^verbatim>\<open>pipeline.nodes\<close> is the text of a column; the model keeps what
  \<^verbatim>\<open>JSON.parse\<close> makes of it: a syntax error, \<^verbatim>\<open>null\<close>, or an array. An
  element of the array is \<open>Some p\<close> when it is an object with numeric \<^verbatim>\<open>lat\<close> and
  \<^verbatim>\<open>lng\<close>, and \<open>None\<close> when the validation of the source rejects it. Other JSON
  values (numbers, strings, objects) are left out of the model.
\<close>

datatype nodes_text = Unparsable | JsonNull | JsonArray "pos option list"

record pipeline =
  pid :: int
  capacity :: real
  nodes :: nodes_text

text \<open>
  What can stop a computation. \<open>SyntaxError\<close> and \<open>TypeError\<close> are the exceptions
  JavaScript throws. \<open>DivisionByZero\<close> is no JavaScript exception: a division by zero
  yields \<^verbatim>\<open>Infinity\<close> or \<^verbatim>\<open>NaN\<close> there, which no real number stands for, so the
  model stops at it and an unguarded division shows in the result.
\<close>

datatype failure = SyntaxError | TypeError | DivisionByZero

definition js_div :: "real \<Rightarrow> real \<Rightarrow> failure + real" where
  "js_div a b = (if b = 0 then Inl DivisionByZero else Inr (a / b))"

section \<open>Geo-math\<close>

text \<open>\<^verbatim>\<open>Math.atan2(y, x)\<close> on real numbers.\<close>

definition atan2 :: "real \<Rightarrow> real \<Rightarrow> real" where
  "atan2 y x =
     (if 0 < x then arctan (y / x)
      else if x < 0 then (if 0 \<le> y then arctan (y / x) + pi else arctan (y / x) - pi)
      else if 0 < y then pi / 2
      else if y < 0 then - (pi / 2)
      else 0)"

definition haversineDistance :: "pos \<Rightarrow> pos \<Rightarrow> real" where
  "haversineDistance pos1 pos2 =
     (let R = 6371000;
          lat1 = lat pos1 * pi / 180;
          lat2 = lat pos2 * pi / 180;
          deltaLat = (lat pos2 - lat pos1) * pi / 180;
          deltaLng = (lng pos2 - lng pos1) * pi / 180;
          a = sin (deltaLat / 2) * sin (deltaLat / 2) +
              cos lat1 * cos lat2 * sin (deltaLng / 2) * sin (deltaLng / 2);
          c = 2 * atan2 (sqrt a) (sqrt (1 - a))
      in R * c)"

definition distanceToSegment :: "pos \<Rightarrow> pos \<Rightarrow> pos \<Rightarrow> real" where
  "distanceToSegment point segmentStart segmentEnd =
     (let A = lat point - lat segmentStart;
          B = lng point - lng segmentStart;
          C = lat segmentEnd - lat segmentStart;
          D = lng segmentEnd - lng segmentStart;
          dot = A * C + B * D;
          lenSq = C * C + D * D;
          param = (if lenSq \<noteq> 0 then dot / lenSq else - 1);
          closest =
            (if param < 0 then \<lparr>lat = lat segmentStart, lng = lng segmentStart\<rparr>
             else if 1 < param then \<lparr>lat = lat segmentEnd, lng = lng segmentEnd\<rparr>
             else \<lparr>lat = lat segmentStart + param * C, lng = lng segmentStart + param * D\<rparr>)
      in haversineDistance point closest)"

text \<open>
  The body of the loop of \<^verbatim>\<open>findBlockingValve\<close> for one valve: \<open>True\<close> where the
  loop returns this valve, \<open>False\<close> at each of its three \<^verbatim>\<open>continue\<close>s and when the
  valve is too far.
\<close>

definition valveBlocks :: "pos \<Rightarrow> pos \<Rightarrow> real \<Rightarrow> valve \<Rightarrow> bool" where
  "valveBlocks segmentStart segmentEnd maxDistance v =
     (let valvePos = \<lparr>lat = latitude v, lng = longitude v\<rparr>;
          A = lat valvePos - lat segmentStart;
          B = lng valvePos - lng segmentStart;
          C = lat segmentEnd - lat segmentStart;
          D = lng segmentEnd - lng segmentStart;
          dot = A * C + B * D;
          lenSq = C * C + D * D
      in if lenSq = 0 then False
         else let param = dot / lenSq
              in if param < 0 \<or> 1 < param then False
                 else let closestLat = lat segmentStart + param * C;
                          closestLng = lng segmentStart + param * D;
                          dist = haversineDistance valvePos \<lparr>lat = closestLat, lng = closestLng\<rparr>
                      in dist < maxDistance)"

fun findBlockingValve :: "pos \<Rightarrow> pos \<Rightarrow> valve list \<Rightarrow> real \<Rightarrow> valve option" where
  "findBlockingValve segmentStart segmentEnd [] maxDistance = None"
| "findBlockingValve segmentStart segmentEnd (v # closedValves) maxDistance =
     (if valveBlocks segmentStart segmentEnd maxDistance v then Some v
      else findBlockingValve segmentStart segmentEnd closedValves maxDistance)"

section \<open>Graph builder\<close>

text \<open>
  A node key is the text \<^verbatim>\<open>lat.toFixed(6) + ',' + lng.toFixed(6)\<close>. The text of
  \<^verbatim>\<open>x.toFixed(6)\<close> is a minus sign when \<open>x < 0\<close>, then the nearest number of millionths
  to \<open>\<bar>x\<bar>\<close> (the larger one at a tie): the pair below holds both.
\<close>

type_synonym fixed6 = "bool \<times> int"
type_synonym node_key = "fixed6 \<times> fixed6"

definition toFixed6 :: "real \<Rightarrow> fixed6" where
  "toFixed6 x = (x < 0, \<lfloor>\<bar>x\<bar> * 1000000 + 1 / 2\<rfloor>)"

definition getNodeKey :: "real \<Rightarrow> real \<Rightarrow> node_key" where
  "getNodeKey la lo = (toFixed6 la, toFixed6 lo)"

record edge =
  from_key :: node_key
  to_key :: node_key
  pipelineId :: int

record node_data =
  position :: pos
  edges :: "edge list"

text \<open>
  \<^verbatim>\<open>graph.nodes\<close> is a JavaScript \<^verbatim>\<open>Map\<close>, which iterates in insertion order: an
  association list, where \<open>map_set\<close> replaces the value of a key it has and appends a
  new key, and \<open>map_of\<close> is \<^verbatim>\<open>get\<close>.
\<close>

fun map_set :: "'k \<Rightarrow> 'v \<Rightarrow> ('k \<times> 'v) list \<Rightarrow> ('k \<times> 'v) list" where
  "map_set k v [] = [(k, v)]"
| "map_set k v ((k', v') # m) = (if k = k' then (k, v) # m else (k', v') # map_set k v m)"

record graph =
  gnodes :: "(node_key \<times> node_data) list"
  gedges :: "edge list"

fun findNearbyNode :: "(node_key \<times> node_data) list \<Rightarrow> real \<Rightarrow> pos \<Rightarrow> node_key option" where
  "findNearbyNode [] connectDistance p = None"
| "findNearbyNode ((nodeKey, nodeData) # rest) connectDistance p =
     (if haversineDistance p (position nodeData) < connectDistance then Some nodeKey
      else findNearbyNode rest connectDistance p)"

text \<open>
  Lines 450 to 458, and again 471 to 479: the key of the first node within the connect
  distance, or a new node at the waypoint itself.
\<close>

definition nodeKeyFor :: "graph \<Rightarrow> real \<Rightarrow> pos \<Rightarrow> node_key \<times> graph" where
  "nodeKeyFor g connectDistance nodePos =
     (case findNearbyNode (gnodes g) connectDistance nodePos of
        Some nodeKey \<Rightarrow> (nodeKey, g)
      | None \<Rightarrow>
          (let nodeKey = getNodeKey (lat nodePos) (lng nodePos)
           in (nodeKey, g\<lparr>gnodes := map_set nodeKey \<lparr>position = nodePos, edges = []\<rparr> (gnodes g)\<rparr>)))"

text \<open>\<^verbatim>\<open>graph.nodes.get(k).edges.push(e)\<close>; the key is in the map wherever the builder calls it.\<close>

definition pushEdge :: "node_key \<Rightarrow> edge \<Rightarrow> (node_key \<times> node_data) list \<Rightarrow> (node_key \<times> node_data) list" where
  "pushEdge k e m = map (\<lambda>(k', nd). if k' = k then (k', nd\<lparr>edges := edges nd @ [e]\<rparr>) else (k', nd)) m"

text \<open>
  The loop over the waypoints of one pipeline, from index \<open>i\<close> on: the list is
  \<^verbatim>\<open>nodes.slice(i)\<close>. An invalid waypoint is skipped; an invalid successor skips the
  edge after the waypoint's own node is in the graph.
\<close>

fun addWaypoints :: "real \<Rightarrow> int \<Rightarrow> pos option list \<Rightarrow> graph \<Rightarrow> graph" where
  "addWaypoints connectDistance pipelineId' [] g = g"
| "addWaypoints connectDistance pipelineId' (None # rest) g =
     addWaypoints connectDistance pipelineId' rest g"
| "addWaypoints connectDistance pipelineId' (Some nodePos # rest) g =
     (let (nodeKey, g1) = nodeKeyFor g connectDistance nodePos
      in case rest of
           [] \<Rightarrow> g1
         | None # _ \<Rightarrow> addWaypoints connectDistance pipelineId' rest g1
         | Some nextNodePos # _ \<Rightarrow>
             (let (nextNodeKey, g2) = nodeKeyFor g1 connectDistance nextNodePos;
                  e = \<lparr>from_key = nodeKey, to_key = nextNodeKey, pipelineId = pipelineId'\<rparr>;
                  reverseEdge = \<lparr>from_key = nextNodeKey, to_key = nodeKey, pipelineId = pipelineId'\<rparr>;
                  g3 = g2\<lparr>gnodes := pushEdge nextNodeKey reverseEdge (pushEdge nodeKey e (gnodes g2)),
                          gedges := gedges g2 @ [e]\<rparr>
              in addWaypoints connectDistance pipelineId' rest g3))"

definition addPipeline :: "real \<Rightarrow> graph \<Rightarrow> pipeline \<Rightarrow> graph" where
  "addPipeline connectDistance g p =
     (case nodes p of
        Unparsable \<Rightarrow> g
      | JsonNull \<Rightarrow> g
      | JsonArray ws \<Rightarrow> addWaypoints connectDistance (pid p) ws g)"

definition buildPipelineGraph :: "pipeline list \<Rightarrow> real \<Rightarrow> graph" where
  "buildPipelineGraph pipelines connectDistance =
     foldl (addPipeline connectDistance) \<lparr>gnodes = [], gedges = []\<rparr> pipelines"

section \<open>Flow propagator\<close>

record segment =
  seg_pipelineId :: int
  seg_start :: pos
  seg_end :: pos
  seg_sourceTank :: string
  hasFlow :: bool
  blocked :: bool

record blocked_segment =
  blk_pipelineId :: int
  blk_start :: pos
  blk_end :: pos
  blockedBy :: string

record queue_item =
  nodeKey :: node_key
  sourceTank :: string

text \<open>
  The variables of \<^verbatim>\<open>calculateFlowPaths\<close> that the traversal changes. An edge key is
  the text \<^verbatim>\<open>from + '-' + to\<close>, which the pair of the two node keys stands for.
\<close>

record flow_state =
  visitedEdges :: "(node_key \<times> node_key) set"
  blockedEdges :: "(node_key \<times> node_key) set"
  visitedNodes :: "node_key set"
  segments :: "segment list"
  blockedSegments :: "blocked_segment list"

definition CONNECT_DISTANCE :: real where
  "CONNECT_DISTANCE = 50"

definition VALVE_BLOCK_DISTANCE :: real where
  "VALVE_BLOCK_DISTANCE = 3"

text \<open>
  The callback of \<^verbatim>\<open>currentNode.edges.forEach\<close> (lines 352 to 392), on the queue and
  the state. Reading \<^verbatim>\<open>.position\<close> of a node the map does not have throws.
\<close>

definition exploreEdge ::
  "graph \<Rightarrow> valve list \<Rightarrow> string \<Rightarrow> edge \<Rightarrow> queue_item list \<times> flow_state
     \<Rightarrow> failure + queue_item list \<times> flow_state" where
  "exploreEdge g closedValves src e qs =
     (let (queue, st) = qs;
          edgeKey = (from_key e, to_key e);
          reverseKey = (to_key e, from_key e)
      in if edgeKey \<in> visitedEdges st \<or> reverseKey \<in> visitedEdges st then Inr (queue, st)
         else if edgeKey \<in> blockedEdges st \<or> reverseKey \<in> blockedEdges st then Inr (queue, st)
         else case map_of (gnodes g) (from_key e) of
                None \<Rightarrow> Inl TypeError
              | Some fromNode \<Rightarrow>
                 (case map_of (gnodes g) (to_key e) of
                    None \<Rightarrow> Inl TypeError
                  | Some toNode \<Rightarrow>
                     (let startPos = position fromNode;
                          endPos = position toNode
                      in case findBlockingValve startPos endPos closedValves VALVE_BLOCK_DISTANCE of
                           Some blockingValve \<Rightarrow>
                             Inr (queue,
                                  st\<lparr>blockedEdges := insert reverseKey (insert edgeKey (blockedEdges st)),
                                     blockedSegments := blockedSegments st @
                                       [\<lparr>blk_pipelineId = pipelineId e, blk_start = startPos,
                                         blk_end = endPos, blockedBy = name blockingValve\<rparr>]\<rparr>)
                         | None \<Rightarrow>
                             Inr (queue @ [\<lparr>nodeKey = to_key e, sourceTank = src\<rparr>],
                                  st\<lparr>visitedEdges := insert reverseKey (insert edgeKey (visitedEdges st)),
                                     segments := segments st @
                                       [\<lparr>seg_pipelineId = pipelineId e, seg_start = startPos,
                                         seg_end = endPos, seg_sourceTank = src,
                                         hasFlow = True, blocked = False\<rparr>]\<rparr>))))"

fun exploreEdges ::
  "graph \<Rightarrow> valve list \<Rightarrow> string \<Rightarrow> edge list \<Rightarrow> queue_item list \<times> flow_state
     \<Rightarrow> failure + queue_item list \<times> flow_state" where
  "exploreEdges g closedValves src [] qs = Inr qs"
| "exploreEdges g closedValves src (e # es) qs =
     (case exploreEdge g closedValves src e qs of
        Inl err \<Rightarrow> Inl err
      | Inr qs' \<Rightarrow> exploreEdges g closedValves src es qs')"

text \<open>Every key an edge of the graph leads to: what the traversal can put on the queue.\<close>

definition edgeTargets :: "graph \<Rightarrow> node_key set" where
  "edgeTargets g = to_key ` (\<Union>nd \<in> snd ` set (gnodes g). set (edges nd))"

lemma exploreEdge_queue:
  "exploreEdge g cv src e (q, st) = Inr (q', st') \<Longrightarrow>
     set (map nodeKey q') \<subseteq> set (map nodeKey q) \<union> {to_key e} \<and> visitedNodes st' = visitedNodes st"
  by (auto simp: exploreEdge_def Let_def split: if_splits option.splits)

lemma exploreEdges_queue:
  "exploreEdges g cv src es (q, st) = Inr (q', st') \<Longrightarrow>
     set (map nodeKey q') \<subseteq> set (map nodeKey q) \<union> to_key ` set es \<and> visitedNodes st' = visitedNodes st"
proof (induction es arbitrary: q st)
  case Nil
  then show ?case by simp
next
  case (Cons e es)
  from Cons.prems obtain q1 st1 where
    s1: "exploreEdge g cv src e (q, st) = Inr (q1, st1)" and
    s2: "exploreEdges g cv src es (q1, st1) = Inr (q', st')"
    by (auto split: sum.splits)
  from exploreEdge_queue [OF s1] Cons.IH [OF s2] show ?case
    unfolding list.set image_insert by blast
qed

text \<open>The \<^verbatim>\<open>while (queue.length > 0)\<close> loop of one tank (lines 342 to 393).\<close>

function bfs :: "graph \<Rightarrow> valve list \<Rightarrow> queue_item list \<Rightarrow> flow_state \<Rightarrow> failure + flow_state" where
  "bfs g closedValves [] st = Inr st"
| "bfs g closedValves (current # queue) st =
     (if nodeKey current \<in> visitedNodes st then bfs g closedValves queue st
      else (let st1 = st\<lparr>visitedNodes := insert (nodeKey current) (visitedNodes st)\<rparr>
            in case map_of (gnodes g) (nodeKey current) of
                 None \<Rightarrow> bfs g closedValves queue st1
               | Some currentNode \<Rightarrow>
                  (case exploreEdges g closedValves (sourceTank current) (edges currentNode) (queue, st1) of
                     Inl err \<Rightarrow> Inl err
                   | Inr (queue', st2) \<Rightarrow> bfs g closedValves queue' st2)))"
  by pat_completeness auto
termination
proof (relation "measures
    [\<lambda>(g, cv, q, st). card ((edgeTargets g \<union> set (map nodeKey q)) - visitedNodes st),
     \<lambda>(g, cv, q, st). length q]", goal_cases)
  case 1
  show ?case by simp
next
  case (2 g cv current queue st)
  have "(edgeTargets g \<union> set (map nodeKey queue)) - visitedNodes st
          \<subseteq> (edgeTargets g \<union> set (map nodeKey (current # queue))) - visitedNodes st"
    by auto
  moreover have "finite ((edgeTargets g \<union> set (map nodeKey (current # queue))) - visitedNodes st)"
    by (simp add: edgeTargets_def)
  ultimately have "card ((edgeTargets g \<union> set (map nodeKey queue)) - visitedNodes st)
      \<le> card ((edgeTargets g \<union> set (map nodeKey (current # queue))) - visitedNodes st)"
    by (rule card_mono [rotated])
  then show ?case by auto
next
  case (3 g cv current queue st st1)
  have fin: "finite ((edgeTargets g \<union> set (map nodeKey (current # queue))) - visitedNodes st)"
    by (simp add: edgeTargets_def)
  from 3 have st1: "visitedNodes st1 = insert (nodeKey current) (visitedNodes st)"
    and new: "nodeKey current \<notin> visitedNodes st"
    by simp_all
  have cur: "nodeKey current \<in> set (map nodeKey (current # queue))"
    by simp
  have mono: "set (map nodeKey queue) \<subseteq> set (map nodeKey (current # queue))"
    by auto
  have "(edgeTargets g \<union> set (map nodeKey queue)) - visitedNodes st1
          \<subset> (edgeTargets g \<union> set (map nodeKey (current # queue))) - visitedNodes st"
    using mono cur new unfolding st1 by blast
  from psubset_card_mono [OF fin this] show ?case by simp
next
  case (4 g cv current queue st st1 currentNode qs' queue' st2)
  have fin: "finite ((edgeTargets g \<union> set (map nodeKey (current # queue))) - visitedNodes st)"
    by (simp add: edgeTargets_def)
  from 4 have ex: "exploreEdges g cv (sourceTank current) (edges currentNode) (queue, st1) = Inr (queue', st2)"
    by simp
  from 4 have "(nodeKey current, currentNode) \<in> set (gnodes g)"
    by (auto dest: map_of_SomeD)
  then have "to_key ` set (edges currentNode) \<subseteq> edgeTargets g"
    by (force simp: edgeTargets_def)
  with exploreEdges_queue [OF ex]
  have sub: "set (map nodeKey queue') \<subseteq> set (map nodeKey queue) \<union> edgeTargets g"
    and vis: "visitedNodes st2 = visitedNodes st1"
    by blast+
  from 4 have st1: "visitedNodes st1 = insert (nodeKey current) (visitedNodes st)"
    and new: "nodeKey current \<notin> visitedNodes st"
    by simp_all
  have cur: "nodeKey current \<in> set (map nodeKey (current # queue))"
    by simp
  have mono: "set (map nodeKey queue) \<subseteq> set (map nodeKey (current # queue))"
    by auto
  have "(edgeTargets g \<union> set (map nodeKey queue')) - visitedNodes st2
          \<subset> (edgeTargets g \<union> set (map nodeKey (current # queue))) - visitedNodes st"
    using sub mono cur new unfolding vis st1 by blast
  from psubset_card_mono [OF fin this] show ?case by simp
qed

text \<open>The seeds of one tank (lines 331 to 339): the nodes within the connect distance, in map order.\<close>

definition tankSeeds :: "graph \<Rightarrow> tank \<Rightarrow> queue_item list" where
  "tankSeeds g t =
     (let tankPos = \<lparr>lat = latitude t, lng = longitude t\<rparr>
      in map (\<lambda>(k, nodeData). \<lparr>nodeKey = k, sourceTank = name t\<rparr>)
           (filter (\<lambda>(k, nodeData). haversineDistance tankPos (position nodeData) < CONNECT_DISTANCE)
              (gnodes g)))"

fun traverseTanks :: "graph \<Rightarrow> valve list \<Rightarrow> tank list \<Rightarrow> flow_state \<Rightarrow> failure + flow_state" where
  "traverseTanks g closedValves [] st = Inr st"
| "traverseTanks g closedValves (t # activeTanks) st =
     (case bfs g closedValves (tankSeeds g t) st of
        Inl err \<Rightarrow> Inl err
      | Inr st' \<Rightarrow> traverseTanks g closedValves activeTanks st')"

definition initialState :: flow_state where
  "initialState =
     \<lparr>visitedEdges = {}, blockedEdges = {}, visitedNodes = {}, segments = [], blockedSegments = []\<rparr>"

text \<open>
  Lines 315 to 394: the graph, the closed valves and the traversal from every active
  tank, with the final values of all five variables.
\<close>

definition flowTraversal :: "tank list \<Rightarrow> valve list \<Rightarrow> pipeline list \<Rightarrow> failure + flow_state" where
  "flowTraversal activeTanks valves pipelines =
     (let g = buildPipelineGraph pipelines CONNECT_DISTANCE;
          closedValves = filter (\<lambda>v. \<not> isOpen v) valves
      in traverseTanks g closedValves activeTanks initialState)"

record flow_data =
  fd_segments :: "segment list"
  fd_blockedSegments :: "blocked_segment list"
  totalSegments :: int

text \<open>
  Lines 397 to 400: \<^verbatim>\<open>JSON.parse\<close> with no handler, then \<^verbatim>\<open>nodes.length - 1\<close>, which
  throws on \<^verbatim>\<open>null\<close>.
\<close>

fun countSegments :: "pipeline list \<Rightarrow> int \<Rightarrow> failure + int" where
  "countSegments [] n = Inr n"
| "countSegments (p # pipelines) n =
     (case nodes p of
        Unparsable \<Rightarrow> Inl SyntaxError
      | JsonNull \<Rightarrow> Inl TypeError
      | JsonArray ws \<Rightarrow> countSegments pipelines (n + (int (length ws) - 1)))"

definition calculateFlowPaths :: "tank list \<Rightarrow> valve list \<Rightarrow> pipeline list \<Rightarrow> failure + flow_data" where
  "calculateFlowPaths tanks valves pipelines =
     (let activeTanks = filter isActive tanks
      in if length activeTanks = 0
         then Inr \<lparr>fd_segments = [], fd_blockedSegments = [], totalSegments = 0\<rparr>
         else case flowTraversal activeTanks valves pipelines of
                Inl err \<Rightarrow> Inl err
              | Inr st \<Rightarrow>
                 (case countSegments pipelines 0 of
                    Inl err \<Rightarrow> Inl err
                  | Inr n \<Rightarrow>
                     Inr \<lparr>fd_segments = segments st, fd_blockedSegments = blockedSegments st,
                          totalSegments = n\<rparr>))"

section \<open>Supply distributor\<close>

record tree_node =
  valve :: valve
  children :: "valve list"
  totalHouseholds :: int
  directHouseholds :: int
  servedHouseholds :: int
  totalFlow :: real
  directFlow :: "real option"

type_synonym valve_tree = "(string \<times> tree_node) list"

text \<open>
  The loop of \<^verbatim>\<open>findConnectedPipelines\<close> over the segments of one pipeline (lines 735
  to 753): \<open>True\<close> where it pushes the pipeline and breaks.
\<close>

fun nearPipeline :: "pos \<Rightarrow> pos option list \<Rightarrow> bool" where
  "nearPipeline valvePos (Some a # Some b # rest) =
     (if distanceToSegment valvePos a b < 15 then True
      else nearPipeline valvePos (Some b # rest))"
| "nearPipeline valvePos (w # rest) = nearPipeline valvePos rest"
| "nearPipeline valvePos [] = False"

definition findConnectedPipelines :: "valve \<Rightarrow> pipeline list \<Rightarrow> pipeline list" where
  "findConnectedPipelines v pipelines =
     (let valvePos = \<lparr>lat = latitude v, lng = longitude v\<rparr>
      in filter (\<lambda>pipe. case nodes pipe of
                          Unparsable \<Rightarrow> False
                        | JsonNull \<Rightarrow> False
                        | JsonArray ws \<Rightarrow> nearPipeline valvePos ws) pipelines)"

text \<open>Lines 598 to 607.\<close>

definition newTreeNode :: "valve list \<Rightarrow> valve \<Rightarrow> tree_node" where
  "newTreeNode subValves v =
     \<lparr>valve = v,
      children = filter (\<lambda>sv. parentValveId sv = Some (valveId v)) subValves,
      totalHouseholds = households v,
      directHouseholds = households v,
      servedHouseholds = 0,
      totalFlow = 0,
      directFlow = None\<rparr>"

definition buildValveTree :: "valve list \<Rightarrow> valve list \<Rightarrow> valve_tree" where
  "buildValveTree mainValves subValves =
     foldl (\<lambda>tree v. map_set (valveId v) (newTreeNode subValves v) tree) [] mainValves"

text \<open>Lines 610 to 616.\<close>

definition setDirectHouseholds :: "valve_tree \<Rightarrow> valve \<Rightarrow> valve_tree" where
  "setDirectHouseholds tree mainValve =
     (case map_of tree (valveId mainValve) of
        None \<Rightarrow> tree
      | Some node \<Rightarrow>
          (let subValvesTotal = sum_list (map households (children node))
           in map_set (valveId mainValve)
                (node\<lparr>directHouseholds := max 0 (totalHouseholds node - subValvesTotal)\<rparr>) tree))"

text \<open>Lines 619 to 633.\<close>

definition estimateFlow :: "flow_data \<Rightarrow> pipeline list \<Rightarrow> tree_node \<Rightarrow> tree_node" where
  "estimateFlow flowData pipelines node =
     (if isOpen (valve node)
      then (let connectedPipelines = findConnectedPipelines (valve node) pipelines;
                flowSum = sum_list (map (\<lambda>pipe.
                          if list_ex (\<lambda>s. seg_pipelineId s = pid pipe) (fd_segments flowData)
                          then capacity pipe * 0.8 else 0) connectedPipelines)
            in node\<lparr>totalFlow := flowSum\<rparr>)
      else node\<lparr>totalFlow := 0\<rparr>)"

record tally =
  sumHouseholds :: int
  sumServed :: int
  sumFlow :: real

text \<open>Lines 658 to 663: the share of one open child, written where the tree has its id.\<close>

definition giveToChild :: "real \<Rightarrow> valve_tree \<Rightarrow> valve \<Rightarrow> valve_tree" where
  "giveToChild flowPerHousehold tree child =
     (case map_of tree (valveId child) of
        None \<Rightarrow> tree
      | Some childNode \<Rightarrow>
          map_set (valveId child)
            (childNode\<lparr>totalFlow := of_int (households child) * flowPerHousehold\<rparr>) tree)"

text \<open>\<^verbatim>\<open>totalFlow += node.totalFlow\<close> (line 667), read from the entry as the writes left it.\<close>

definition addNodeFlow :: "valve_tree \<Rightarrow> string \<Rightarrow> tally \<Rightarrow> tally" where
  "addNodeFlow tree key acc =
     (case map_of tree key of
        None \<Rightarrow> acc
      | Some node \<Rightarrow> acc\<lparr>sumFlow := sumFlow acc + totalFlow node\<rparr>)"

text \<open>
  The callback of lines 640 to 668 for the entry under \<open>key\<close>. The node objects are
  changed in place, so every write goes to the tree.
\<close>

definition distributeNode :: "string \<Rightarrow> valve_tree \<times> tally \<Rightarrow> failure + valve_tree \<times> tally" where
  "distributeNode key ts =
     (let (tree, acc) = ts
      in case map_of tree key of
           None \<Rightarrow> Inr ts
         | Some node \<Rightarrow>
            (let acc1 = acc\<lparr>sumHouseholds := sumHouseholds acc + totalHouseholds node\<rparr>
             in if isOpen (valve node)
                then (let openChildren = filter isOpen (children node);
                          childrenHouseholds = sum_list (map households openChildren);
                          totalOpenHouseholds = directHouseholds node + childrenHouseholds
                      in if 0 < totalOpenHouseholds
                         then (let served = min totalOpenHouseholds \<lfloor>totalFlow node / 10\<rfloor>
                               in case js_div (totalFlow node) (of_int totalOpenHouseholds) of
                                    Inl err \<Rightarrow> Inl err
                                  | Inr flowPerHousehold \<Rightarrow>
                                     (let node1 = node\<lparr>servedHouseholds := served,
                                            directFlow := Some (of_int (directHouseholds node) * flowPerHousehold)\<rparr>;
                                          tree1 = foldl (giveToChild flowPerHousehold)
                                                    (map_set key node1 tree) openChildren
                                      in Inr (tree1,
                                              addNodeFlow tree1 key
                                                (acc1\<lparr>sumServed := sumServed acc1 + served\<rparr>))))
                         else Inr (tree, addNodeFlow tree key acc1))
                else Inr (tree, addNodeFlow tree key acc1)))"

fun distributeAll :: "string list \<Rightarrow> valve_tree \<times> tally \<Rightarrow> failure + valve_tree \<times> tally" where
  "distributeAll [] ts = Inr ts"
| "distributeAll (key # keys) ts =
     (case distributeNode key ts of
        Inl err \<Rightarrow> Inl err
      | Inr ts' \<Rightarrow> distributeAll keys ts')"

text \<open>Lines 670 and 671.\<close>

definition coverageOf :: "int \<Rightarrow> int \<Rightarrow> failure + real" where
  "coverageOf totalHouseholds' servedHouseholds' =
     (if 0 < totalHouseholds'
      then (case js_div (of_int servedHouseholds') (of_int totalHouseholds') of
              Inl err \<Rightarrow> Inl err
            | Inr q \<Rightarrow> Inr (q * 100))
      else Inr 0)"

definition avgSupplyOf :: "real \<Rightarrow> int \<Rightarrow> failure + real" where
  "avgSupplyOf totalFlow' servedHouseholds' =
     (if 0 < servedHouseholds' then js_div totalFlow' (of_int servedHouseholds') else Inr 0)"

text \<open>
  \<^verbatim>\<open>parseFloat(x.toFixed(d))\<close>: the nearest multiple of \<open>10\<^sup>-\<^sup>d\<close>, the larger in
  magnitude at a tie.
\<close>

definition toFixedNum :: "nat \<Rightarrow> real \<Rightarrow> real" where
  "toFixedNum d x =
     (if x < 0 then - (of_int \<lfloor>- x * 10 ^ d + 1 / 2\<rfloor> / 10 ^ d)
      else of_int \<lfloor>x * 10 ^ d + 1 / 2\<rfloor> / 10 ^ d)"

record region_valve =
  rv_valve :: valve
  flow :: real
  rv_servedHouseholds :: int

record region =
  region_name :: "string option"
  region_valves :: "region_valve list"
  region_totalHouseholds :: int
  region_servedHouseholds :: int
  region_totalFlow :: real

text \<open>
  \<^verbatim>\<open>regions\<close> is a plain object. Reading \<^verbatim>\<open>regions[key]\<close> finds an own property or,
  under one of the names below, a member of \<^verbatim>\<open>Object.prototype\<close>: a function, or the
  prototype itself under \<^verbatim>\<open>__proto__\<close>. Each of these is truthy and has no
  \<^verbatim>\<open>valves\<close>.
\<close>

definition inheritedNames :: "string list" where
  "inheritedNames =
     [''constructor'', ''__defineGetter__'', ''__defineSetter__'', ''hasOwnProperty'',
      ''__lookupGetter__'', ''__lookupSetter__'', ''isPrototypeOf'', ''propertyIsEnumerable'',
      ''toString'', ''valueOf'', ''__proto__'', ''toLocaleString'']"

text \<open>The property key \<^verbatim>\<open>valve.mandal\<close> is converted to: \<^verbatim>\<open>null\<close> gives the text \<^verbatim>\<open>null\<close>.\<close>

definition regionKey :: "valve \<Rightarrow> string" where
  "regionKey v = (case mandal v of None \<Rightarrow> ''null'' | Some m \<Rightarrow> m)"

text \<open>
  The callback of lines 675 to 699. The own properties of \<^verbatim>\<open>regions\<close> are an
  association list in the order of their creation. Line 676 creates no region when the
  key is an inherited name; line 688 then throws a \<^verbatim>\<open>TypeError\<close> when the valve has a
  tree entry, since what it reads has no \<^verbatim>\<open>valves\<close>.
\<close>

definition addToRegion ::
  "valve_tree \<Rightarrow> (string \<times> region) list \<Rightarrow> valve \<Rightarrow> failure + (string \<times> region) list" where
  "addToRegion tree regs v =
     (let key = regionKey v;
          regs1 =
            (if key \<in> set inheritedNames then regs
             else case map_of regs key of
               None \<Rightarrow>
                 map_set key
                   \<lparr>region_name = mandal v, region_valves = [], region_totalHouseholds = 0,
                    region_servedHouseholds = 0, region_totalFlow = 0\<rparr> regs
             | Some r \<Rightarrow> regs)
      in case map_of tree (valveId v) of
           None \<Rightarrow> Inr regs1
         | Some node \<Rightarrow>
            (case map_of regs1 key of
               None \<Rightarrow> Inl TypeError
             | Some r \<Rightarrow>
                 Inr (map_set key
                   (r\<lparr>region_valves := region_valves r @
                         [\<lparr>rv_valve = v, flow = totalFlow node,
                           rv_servedHouseholds = servedHouseholds node\<rparr>],
                      region_totalHouseholds := region_totalHouseholds r + households v,
                      region_servedHouseholds := region_servedHouseholds r + servedHouseholds node,
                      region_totalFlow := region_totalFlow r + totalFlow node\<rparr>) regs1)))"

text \<open>\<^verbatim>\<open>valves.forEach\<close> of line 675: the first exception ends the loop.\<close>

fun addRegions ::
  "valve_tree \<Rightarrow> (string \<times> region) list \<Rightarrow> valve list \<Rightarrow> failure + (string \<times> region) list" where
  "addRegions tree regs [] = Inr regs"
| "addRegions tree regs (v # vs) =
     (case addToRegion tree regs v of
        Inl err \<Rightarrow> Inl err
      | Inr regs' \<Rightarrow> addRegions tree regs' vs)"

text \<open>
  \<^verbatim>\<open>Object.values\<close> (line 712) lists the own properties whose key is an array index (the
  decimal text, without a leading zero, of an integer from 0 to \<open>2\<^sup>3\<^sup>2 - 2\<close>) first, in
  ascending order of the index, and then the others in the order of their creation.
\<close>

definition digitValue :: "char \<Rightarrow> nat option" where
  "digitValue c =
     map_of [(CHR ''0'', 0), (CHR ''1'', 1), (CHR ''2'', 2), (CHR ''3'', 3), (CHR ''4'', 4),
             (CHR ''5'', 5), (CHR ''6'', 6), (CHR ''7'', 7), (CHR ''8'', 8), (CHR ''9'', 9)] c"

fun digitsValue :: "string \<Rightarrow> nat \<Rightarrow> nat option" where
  "digitsValue [] n = Some n"
| "digitsValue (c # cs) n =
     (case digitValue c of
        None \<Rightarrow> None
      | Some d \<Rightarrow> digitsValue cs (10 * n + d))"

definition arrayIndex :: "string \<Rightarrow> nat option" where
  "arrayIndex key =
     (if key = [] \<or> (hd key = CHR ''0'' \<and> key \<noteq> ''0'') then None
      else case digitsValue key 0 of
             None \<Rightarrow> None
           | Some n \<Rightarrow> if n < 4294967295 then Some n else None)"

definition objectValues :: "(string \<times> 'a) list \<Rightarrow> 'a list" where
  "objectValues props =
     map snd (sort_key (\<lambda>kv. case arrayIndex (fst kv) of None \<Rightarrow> 0 | Some n \<Rightarrow> n)
                (filter (\<lambda>kv. arrayIndex (fst kv) \<noteq> None) props)) @
     map snd (filter (\<lambda>kv. arrayIndex (fst kv) = None) props)"

record stats =
  stats_totalHouseholds :: int
  stats_servedHouseholds :: int
  coverage :: real
  stats_totalFlow :: real
  avgSupplyPerHousehold :: real
  mainValves :: nat
  subValves :: nat
  activeTanks :: nat

record supply_overview =
  stats :: stats
  regions :: "region list"
  valveTree :: "tree_node list"

definition calculateSupplyOverview ::
  "tank list \<Rightarrow> valve list \<Rightarrow> pipeline list \<Rightarrow> failure + supply_overview" where
  "calculateSupplyOverview tanks valves pipelines =
     (case calculateFlowPaths tanks valves pipelines of
        Inl err \<Rightarrow> Inl err
      | Inr flowData \<Rightarrow>
         (let mainVs = filter (\<lambda>v. category v = ''main'') valves;
              subVs = filter (\<lambda>v. category v = ''sub'') valves;
              tree0 = buildValveTree mainVs subVs;
              tree1 = foldl setDirectHouseholds tree0 mainVs;
              tree2 = map (\<lambda>(k, node). (k, estimateFlow flowData pipelines node)) tree1
          in case distributeAll (map fst tree2)
                    (tree2, \<lparr>sumHouseholds = 0, sumServed = 0, sumFlow = 0\<rparr>) of
               Inl err \<Rightarrow> Inl err
             | Inr (tree3, acc) \<Rightarrow>
                (case coverageOf (sumHouseholds acc) (sumServed acc) of
                   Inl err \<Rightarrow> Inl err
                 | Inr cov \<Rightarrow>
                    (case avgSupplyOf (sumFlow acc) (sumServed acc) of
                       Inl err \<Rightarrow> Inl err
                     | Inr avg \<Rightarrow>
                        (case addRegions tree3 [] valves of
                           Inl err \<Rightarrow> Inl err
                         | Inr regs \<Rightarrow>
                            Inr \<lparr>stats =
                                   \<lparr>stats_totalHouseholds = sumHouseholds acc,
                                    stats_servedHouseholds = sumServed acc,
                                    coverage = toFixedNum 1 cov,
                                    stats_totalFlow = toFixedNum 0 (sumFlow acc),
                                    avgSupplyPerHousehold = toFixedNum 1 avg,
                                    mainValves = length mainVs,
                                    subValves = length subVs,
                                    activeTanks = length (filter isActive tanks)\<rparr>,
                                 regions = objectValues regs,
                                 valveTree = map snd tree3\<rparr>)))))"

section \<open>Example inputs\<close>

text \<open>
  The sum of \<^verbatim>\<open>waypointCount - 1\<close> over the pipelines supplied, as Scenario D of the
  specification words the expected \<^verbatim>\<open>totalSegments\<close>.
\<close>

definition spec_totalSegments :: "pipeline list \<Rightarrow> int" where
  "spec_totalSegments pipelines =
     sum_list (map (\<lambda>p. case nodes p of JsonArray ws \<Rightarrow> int (length ws) - 1 | _ \<Rightarrow> 0) pipelines)"

definition idleTank :: tank where
  "idleTank = \<lparr>name = ''T1'', latitude = 0, longitude = 0, isActive = False\<rparr>"

definition activeTank :: tank where
  "activeTank = \<lparr>name = ''T1'', latitude = 0, longitude = 0, isActive = True\<rparr>"

text \<open>One pipeline of two waypoints, a thousandth of a degree apart on a meridian.\<close>

definition shortPipe :: pipeline where
  "shortPipe = \<lparr>pid = 1, capacity = 500,
      nodes = JsonArray [Some \<lparr>lat = 0, lng = 0\<rparr>, Some \<lparr>lat = 1 / 1000, lng = 0\<rparr>]\<rparr>"

text \<open>A closed valve on the meridian of the short pipe, a hundred-thousandth of a degree before its first waypoint.\<close>

definition endValve :: valve where
  "endValve = \<lparr>name = ''V1'', latitude = - (1 / 100000), longitude = 0, valveId = ''V1'',
     isOpen = False, category = ''main'', parentValveId = None, households = 0, mandal = Some ''M''\<rparr>"

section \<open>Notions the statements use\<close>

text \<open>\<^verbatim>\<open>valvePos\<close>, as \<^verbatim>\<open>findBlockingValve\<close> and \<^verbatim>\<open>findConnectedPipelines\<close> build it.\<close>

definition valvePos :: "valve \<Rightarrow> pos" where
  "valvePos v = \<lparr>lat = latitude v, lng = longitude v\<rparr>"

text \<open>
  The projection parameter \<^verbatim>\<open>param = dot / lenSq\<close> of \<^verbatim>\<open>findBlockingValve\<close> and
  \<^verbatim>\<open>distanceToSegment\<close>, before any clamping; \<open>None\<close> on a segment whose squared
  length is 0.
\<close>

definition segmentParam :: "pos \<Rightarrow> pos \<Rightarrow> pos \<Rightarrow> real option" where
  "segmentParam point segmentStart segmentEnd =
     (let A = lat point - lat segmentStart;
          B = lng point - lng segmentStart;
          C = lat segmentEnd - lat segmentStart;
          D = lng segmentEnd - lng segmentStart;
          dot = A * C + B * D;
          lenSq = C * C + D * D
      in if lenSq = 0 then None else Some (dot / lenSq))"

text \<open>A closed valve at the middle of the short pipe, and the edge of the short pipe.\<close>

definition midValve :: valve where
  "midValve = \<lparr>name = ''V2'', latitude = 1 / 2000, longitude = 0, valveId = ''V2'',
     isOpen = False, category = ''main'', parentValveId = None, households = 0, mandal = Some ''M''\<rparr>"

definition shortEdge :: edge where
  "shortEdge = \<lparr>from_key = getNodeKey 0 0, to_key = getNodeKey (1 / 1000) 0, pipelineId = 1\<rparr>"

text \<open>
  The keys of a graph, and a graph whose edges only name keys it has: what the builder
  produces, and what lets the traversal read \<^verbatim>\<open>.position\<close> of both ends of an edge.
\<close>

definition graphKeys :: "graph \<Rightarrow> node_key set" where
  "graphKeys g = fst ` set (gnodes g)"

definition graphClosed :: "graph \<Rightarrow> bool" where
  "graphClosed g =
     (\<forall>nd \<in> snd ` set (gnodes g). \<forall>e \<in> set (edges nd).
        from_key e \<in> graphKeys g \<and> to_key e \<in> graphKeys g)"

text \<open>
  A physical sub-segment is the unordered pair of the node keys of an edge. A state
  classifies every segment once when both edge sets hold each edge in both directions,
  no edge is in both, and each list has one entry per unordered pair of its set.
\<close>

definition unordered :: "'a \<times> 'a \<Rightarrow> 'a set" where
  "unordered e = {fst e, snd e}"

definition classifiedOnce :: "flow_state \<Rightarrow> bool" where
  "classifiedOnce st =
     (finite (visitedEdges st) \<and> finite (blockedEdges st) \<and>
      (visitedEdges st)\<inverse> = visitedEdges st \<and> (blockedEdges st)\<inverse> = blockedEdges st \<and>
      visitedEdges st \<inter> blockedEdges st = {} \<and>
      card (unordered ` visitedEdges st) = length (segments st) \<and>
      card (unordered ` blockedEdges st) = length (blockedSegments st))"

text \<open>
  A pipeline whose text does not parse; Scenario B of the specification: a pipeline of
  three waypoints and a closed valve at the middle of its second segment, and the final
  state of the traversal there.
\<close>

definition brokenPipe :: pipeline where
  "brokenPipe = \<lparr>pid = 2, capacity = 500, nodes = Unparsable\<rparr>"

definition longPipe :: pipeline where
  "longPipe = \<lparr>pid = 3, capacity = 500,
      nodes = JsonArray [Some \<lparr>lat = 0, lng = 0\<rparr>, Some \<lparr>lat = 1 / 1000, lng = 0\<rparr>,
                         Some \<lparr>lat = 2 / 1000, lng = 0\<rparr>]\<rparr>"

definition farValve :: valve where
  "farValve = \<lparr>name = ''V3'', latitude = 3 / 2000, longitude = 0, valveId = ''V3'',
     isOpen = False, category = ''main'', parentValveId = None, households = 0, mandal = Some ''M''\<rparr>"

definition scenarioB :: flow_state where
  "scenarioB =
     \<lparr>visitedEdges =
        {(getNodeKey (1 / 1000) 0, getNodeKey 0 0), (getNodeKey 0 0, getNodeKey (1 / 1000) 0)},
      blockedEdges =
        {(getNodeKey (2 / 1000) 0, getNodeKey (1 / 1000) 0),
         (getNodeKey (1 / 1000) 0, getNodeKey (2 / 1000) 0)},
      visitedNodes = {getNodeKey (1 / 1000) 0, getNodeKey 0 0},
      segments =
        [\<lparr>seg_pipelineId = 3, seg_start = \<lparr>lat = 0, lng = 0\<rparr>,
          seg_end = \<lparr>lat = 1 / 1000, lng = 0\<rparr>, seg_sourceTank = ''T1'',
          hasFlow = True, blocked = False\<rparr>],
      blockedSegments =
        [\<lparr>blk_pipelineId = 3, blk_start = \<lparr>lat = 1 / 1000, lng = 0\<rparr>,
          blk_end = \<lparr>lat = 2 / 1000, lng = 0\<rparr>, blockedBy = ''V3''\<rparr>]\<rparr>"

text \<open>
  The open households of a tree entry: its direct households plus the households of its
  open children (\<^verbatim>\<open>totalOpenHouseholds\<close> of line 647).
\<close>

definition openHouseholds :: "tree_node \<Rightarrow> int" where
  "openHouseholds node =
     directHouseholds node + sum_list (map households (filter isOpen (children node)))"

text \<open>An association list with every value replaced by one of its parts.\<close>

definition project :: "('v \<Rightarrow> 'w) \<Rightarrow> ('k \<times> 'v) list \<Rightarrow> ('k \<times> 'w) list" where
  "project h m = map (\<lambda>(k, v). (k, h v)) m"

text \<open>The valve tree after lines 597 to 633, before the distribution, and the three sums at 0.\<close>

definition estimatedTree :: "flow_data \<Rightarrow> valve list \<Rightarrow> pipeline list \<Rightarrow> valve_tree" where
  "estimatedTree flowData valves pipelines =
     (let mainVs = filter (\<lambda>v. category v = ''main'') valves;
          subVs = filter (\<lambda>v. category v = ''sub'') valves
      in map (\<lambda>(k, node). (k, estimateFlow flowData pipelines node))
           (foldl setDirectHouseholds (buildValveTree mainVs subVs) mainVs))"

definition zeroTally :: tally where
  "zeroTally = \<lparr>sumHouseholds = 0, sumServed = 0, sumFlow = 0\<rparr>"

text \<open>The children list of a main valve, as lines 594 and 601 select it.\<close>

definition childrenOf :: "valve list \<Rightarrow> valve \<Rightarrow> valve list" where
  "childrenOf valves v =
     filter (\<lambda>sv. parentValveId sv = Some (valveId v)) (filter (\<lambda>v. category v = ''sub'') valves)"

text \<open>
  What the coverage bound needs of every tree entry: a flow that is not negative,
  children and direct households that are not negative, and open households within the
  entry's own households.
\<close>

definition soundNode :: "tree_node \<Rightarrow> bool" where
  "soundNode n =
     (0 \<le> totalFlow n \<and> list_all (\<lambda>c. 0 \<le> households c) (children n) \<and>
      0 \<le> directHouseholds n \<and> openHouseholds n \<le> totalHouseholds n)"

definition soundTree :: "valve_tree \<Rightarrow> bool" where
  "soundTree tree = (\<forall>k n. map_of tree k = Some n \<longrightarrow> soundNode n)"

text \<open>A tree entry after line 615 has set its direct households.\<close>

definition adjustedNode :: "valve list \<Rightarrow> valve \<Rightarrow> tree_node" where
  "adjustedNode subVs v =
     (newTreeNode subVs v)\<lparr>directHouseholds :=
        max 0 (households v - sum_list (map households (children (newTreeNode subVs v))))\<rparr>"

text \<open>
  Valves and a pipeline of capacity 625 for the supply examples, with the results of
  \<^verbatim>\<open>calculateSupplyOverview\<close> on them. Scenario C of the specification is \<open>mainValve\<close>
  with \<open>subValve\<close>: the pipeline flows, so the estimated flow is \<open>625 * 0.8 = 500\<close>.
\<close>

definition mainValve :: valve where
  "mainValve = \<lparr>name = ''Main'', latitude = 0, longitude = 0, valveId = ''M1'', isOpen = True,
     category = ''main'', parentValveId = None, households = 100, mandal = Some ''North''\<rparr>"

definition subValve :: valve where
  "subValve = \<lparr>name = ''Sub'', latitude = 0, longitude = 0, valveId = ''S1'', isOpen = True,
     category = ''sub'', parentValveId = Some ''M1'', households = 40, mandal = Some ''North''\<rparr>"

definition danglingSub :: valve where
  "danglingSub = \<lparr>name = ''Lost'', latitude = 0, longitude = 0, valveId = ''S2'', isOpen = True,
     category = ''sub'', parentValveId = Some ''M9'', households = 25, mandal = Some ''South''\<rparr>"

definition smallMain :: valve where
  "smallMain = \<lparr>name = ''Small'', latitude = 0, longitude = 0, valveId = ''M2'', isOpen = True,
     category = ''main'', parentValveId = None, households = 10, mandal = Some ''North''\<rparr>"

definition bigSub :: valve where
  "bigSub = \<lparr>name = ''Big'', latitude = 0, longitude = 0, valveId = ''S3'', isOpen = True,
     category = ''sub'', parentValveId = Some ''M2'', households = 40, mandal = Some ''North''\<rparr>"

definition quietValve :: valve where
  "quietValve = \<lparr>name = ''Quiet'', latitude = 0, longitude = 0, valveId = ''M3'', isOpen = True,
     category = ''main'', parentValveId = None, households = 0, mandal = Some ''North''\<rparr>"

definition widePipe :: pipeline where
  "widePipe = \<lparr>pid = 4, capacity = 625,
      nodes = JsonArray [Some \<lparr>lat = 0, lng = 0\<rparr>, Some \<lparr>lat = 1 / 1000, lng = 0\<rparr>]\<rparr>"

definition scenarioC :: supply_overview where
  "scenarioC =
     \<lparr>stats =
        \<lparr>stats_totalHouseholds = 100, stats_servedHouseholds = 50, coverage = 50,
         stats_totalFlow = 500, avgSupplyPerHousehold = 10, mainValves = 1, subValves = 1,
         activeTanks = 1\<rparr>,
      regions =
        [\<lparr>region_name = Some ''North'',
          region_valves = [\<lparr>rv_valve = mainValve, flow = 500, rv_servedHouseholds = 50\<rparr>],
          region_totalHouseholds = 100, region_servedHouseholds = 50, region_totalFlow = 500\<rparr>],
      valveTree =
        [\<lparr>valve = mainValve, children = [subValve], totalHouseholds = 100,
          directHouseholds = 60, servedHouseholds = 50, totalFlow = 500,
          directFlow = Some 300\<rparr>]\<rparr>"

definition overCovered :: supply_overview where
  "overCovered =
     \<lparr>stats =
        \<lparr>stats_totalHouseholds = 10, stats_servedHouseholds = 40, coverage = 400,
         stats_totalFlow = 500, avgSupplyPerHousehold = 25 / 2, mainValves = 1, subValves = 1,
         activeTanks = 1\<rparr>,
      regions =
        [\<lparr>region_name = Some ''North'',
          region_valves = [\<lparr>rv_valve = smallMain, flow = 500, rv_servedHouseholds = 40\<rparr>],
          region_totalHouseholds = 10, region_servedHouseholds = 40, region_totalFlow = 500\<rparr>],
      valveTree =
        [\<lparr>valve = smallMain, children = [bigSub], totalHouseholds = 10,
          directHouseholds = 0, servedHouseholds = 40, totalFlow = 500,
          directFlow = Some 0\<rparr>]\<rparr>"





definition quietOverview :: supply_overview where
  "quietOverview =
     \<lparr>stats =
        \<lparr>stats_totalHouseholds = 0, stats_servedHouseholds = 0, coverage = 0,
         stats_totalFlow = 0, avgSupplyPerHousehold = 0, mainValves = 1, subValves = 0,
         activeTanks = 0\<rparr>,
      regions =
        [\<lparr>region_name = Some ''North'',
          region_valves = [\<lparr>rv_valve = quietValve, flow = 0, rv_servedHouseholds = 0\<rparr>],
          region_totalHouseholds = 0, region_servedHouseholds = 0, region_totalFlow = 0\<rparr>],
      valveTree =
        [\<lparr>valve = quietValve, children = [], totalHouseholds = 0, directHouseholds = 0,
          servedHouseholds = 0, totalFlow = 0, directFlow = None\<rparr>]\<rparr>"

text \<open>
  A pipeline with a waypoint every three ten-thousandths of a degree (about 33 m), a
  closed valve at its second waypoint, a closed valve at its first, and the self-loop
  edge of its first node.
\<close>

definition densePipe :: pipeline where
  "densePipe = \<lparr>pid = 5, capacity = 500,
      nodes = JsonArray [Some \<lparr>lat = 0, lng = 0\<rparr>, Some \<lparr>lat = 3 / 10000, lng = 0\<rparr>,
                         Some \<lparr>lat = 6 / 10000, lng = 0\<rparr>]\<rparr>"

definition denseValve :: valve where
  "denseValve = \<lparr>name = ''V4'', latitude = 3 / 10000, longitude = 0, valveId = ''V4'',
     isOpen = False, category = ''main'', parentValveId = None, households = 0, mandal = Some ''M''\<rparr>"

definition originValve :: valve where
  "originValve = \<lparr>name = ''V5'', latitude = 0, longitude = 0, valveId = ''V5'',
     isOpen = False, category = ''main'', parentValveId = None, households = 0, mandal = Some ''M''\<rparr>"

definition selfLoop :: edge where
  "selfLoop = \<lparr>from_key = getNodeKey 0 0, to_key = getNodeKey 0 0, pipelineId = 5\<rparr>"

text \<open>
  The flow data of one pipeline from (0, 0) to (0.001, 0) supplied by tank T1, and the tree
  entry of main valve M1 in scenario C before the distribution.
\<close>

definition scenarioC_node :: tree_node where
  "scenarioC_node =
     \<lparr>valve = mainValve, children = [subValve], totalHouseholds = 100, directHouseholds = 60,
      servedHouseholds = 0, totalFlow = 500, directFlow = None\<rparr>"

definition shortFlow :: "int \<Rightarrow> flow_data" where
  "shortFlow i =
     \<lparr>fd_segments =
        [\<lparr>seg_pipelineId = i, seg_start = \<lparr>lat = 0, lng = 0\<rparr>,
          seg_end = \<lparr>lat = 1 / 1000, lng = 0\<rparr>, seg_sourceTank = ''T1'',
          hasFlow = True, blocked = False\<rparr>],
      fd_blockedSegments = [], totalSegments = 1\<rparr>"


text \<open>
  What lines 649 to 656 write to an entry itself: the served households and the direct
  flow, when the valve is open and its open households are positive.
\<close>

definition splitDirect :: "tree_node \<Rightarrow> tree_node" where
  "splitDirect n =
     (if isOpen (valve n) \<and> 0 < openHouseholds n
      then n\<lparr>servedHouseholds := min (openHouseholds n) \<lfloor>totalFlow n / 10\<rfloor>,
             directFlow := Some (of_int (directHouseholds n) *
                                   (totalFlow n / of_int (openHouseholds n)))\<rparr>
      else n)"

text \<open>
  An entry is either one that lines 649 to 656 write to, or one whose direct flow is
  \<^verbatim>\<open>undefined\<close> and whose served households are 0.
\<close>

definition unsplit :: "tree_node \<Rightarrow> bool" where
  "unsplit n = ((isOpen (valve n) \<and> 0 < openHouseholds n) \<or>
                (directFlow n = None \<and> servedHouseholds n = 0))"

text \<open>
  A sub valve and a main valve whose mandal is the name of a member of
  \<^verbatim>\<open>Object.prototype\<close>.
\<close>

definition constructorSub :: valve where
  "constructorSub = \<lparr>name = ''Odd'', latitude = 0, longitude = 0, valveId = ''S4'', isOpen = True,
     category = ''sub'', parentValveId = Some ''M9'', households = 25, mandal = Some ''constructor''\<rparr>"

definition constructorMain :: valve where
  "constructorMain = \<lparr>name = ''Odd'', latitude = 0, longitude = 0, valveId = ''M4'', isOpen = True,
     category = ''main'', parentValveId = None, households = 25, mandal = Some ''constructor''\<rparr>"

section \<open>Distances on a meridian\<close>

text \<open>
  On one meridian the haversine formula is the arc length: the Earth radius times the
  difference of the latitudes in radians. The examples below lie on the meridian 0.
\<close>

lemma atan2_sin_cos:
  assumes "0 \<le> t" "t \<le> pi / 2"
  shows "atan2 (sin t) (cos t) = t"
proof (cases "t = pi / 2")
  case True
  have "cos (pi / 2) = 0" "sin (pi / 2) = 1" by simp_all
  then show ?thesis unfolding True atan2_def by simp
next
  case False
  with assms have lt: "t < pi / 2" by simp
  with assms have "0 < cos t" by (intro cos_gt_zero_pi) auto
  moreover have "arctan (sin t / cos t) = t"
    using arctan_tan [of t] assms lt by (simp add: tan_def)
  ultimately show ?thesis by (simp add: atan2_def)
qed

lemma haversine_meridian:
  assumes "lng p = lng q" "\<bar>lat q - lat p\<bar> \<le> 180"
  shows "haversineDistance p q = 6371000 * (\<bar>lat q - lat p\<bar> * pi / 180)"
proof -
  define t where "t = \<bar>lat q - lat p\<bar> * pi / 360"
  have t0: "0 \<le> t" by (simp add: t_def)
  have t1: "t \<le> pi / 2"
  proof -
    have "\<bar>lat q - lat p\<bar> * pi \<le> 180 * pi"
      using assms(2) by (intro mult_right_mono) auto
    then show ?thesis by (simp add: t_def)
  qed
  have s0: "0 \<le> sin t" using t0 t1 by (intro sin_ge_zero) (auto intro: order_trans [OF t1])
  have c0: "0 \<le> cos t" using t0 t1 by (intro cos_ge_zero) auto
  have sq: "sin ((lat q - lat p) * pi / 180 / 2) * sin ((lat q - lat p) * pi / 180 / 2) = sin t * sin t"
  proof (cases "0 \<le> lat q - lat p")
    case True
    then show ?thesis by (simp add: t_def)
  next
    case False
    then have ab: "\<bar>lat q - lat p\<bar> = - (lat q - lat p)" by simp
    have "- t = - (- (lat q - lat p) * pi / 360)" unfolding t_def ab ..
    also have "\<dots> = (lat q - lat p) * pi / 360" by (simp only: minus_mult_left [symmetric] minus_divide_left [symmetric] minus_minus)
    finally have "(lat q - lat p) * pi / 180 / 2 = - t" by simp
    then show ?thesis by simp
  qed
  have a: "sqrt (sin t * sin t) = sin t" using s0 by simp
  have "1 - sin t * sin t = cos t * cos t"
    using sin_cos_squared_add [of t] by (simp add: power2_eq_square algebra_simps)
  then have b: "sqrt (1 - sin t * sin t) = cos t" using c0 by simp
  have dl: "sin ((lng q - lng p) * pi / 180 / 2) = 0"
    using assms(1) by simp
  have A: "sin ((lat q - lat p) * pi / 180 / 2) * sin ((lat q - lat p) * pi / 180 / 2) +
           cos (lat p * pi / 180) * cos (lat q * pi / 180) *
           sin ((lng q - lng p) * pi / 180 / 2) * sin ((lng q - lng p) * pi / 180 / 2) = sin t * sin t"
    unfolding sq dl by simp
  have "haversineDistance p q = 6371000 * (2 * t)"
    unfolding haversineDistance_def Let_def A a b atan2_sin_cos [OF t0 t1] ..
  then show ?thesis by (simp add: t_def)
qed

lemma haversine_self: "haversineDistance p p = 0"
  using haversine_meridian [of p p] by simp

lemma pi_ge_3: "3 \<le> pi"
proof -
  have "sin (pi / 6) \<le> pi / 6"
    by (rule sin_x_le_x) simp
  then show ?thesis by (simp add: sin_30)
qed

lemma meridian_far:
  assumes "lng p = lng q" "\<bar>lat q - lat p\<bar> \<le> 180" "1 / 2000 \<le> \<bar>lat q - lat p\<bar>"
  shows "\<not> haversineDistance p q < 50"
proof -
  define x where "x = \<bar>lat q - lat p\<bar> * pi"
  have "(1 / 2000) * 3 \<le> x"
    unfolding x_def using assms(3) pi_ge_3 by (intro mult_mono) auto
  moreover have "haversineDistance p q = 6371000 * (x / 180)"
    unfolding x_def by (rule haversine_meridian [OF assms(1,2)])
  ultimately show ?thesis by simp
qed

lemma meridian_near:
  assumes "lng p = lng q" "\<bar>lat q - lat p\<bar> \<le> c" "0 < c" "c \<le> 180" "6371000 * (c * 4 / 180) \<le> d"
  shows "haversineDistance p q < d"
proof -
  define x where "x = \<bar>lat q - lat p\<bar> * pi"
  have "x \<le> c * pi"
    unfolding x_def using assms(2) by (intro mult_right_mono) auto
  also have "\<dots> < c * 4"
    using pi_less_4 assms(3) by simp
  finally have "x < c * 4" .
  moreover have "\<bar>lat q - lat p\<bar> \<le> 180" using assms(2,4) by simp
  then have "haversineDistance p q = 6371000 * (x / 180)"
    unfolding x_def by (rule haversine_meridian [OF assms(1)])
  ultimately show ?thesis using assms(5) by simp
qed

lemmas geo = haversine_self meridian_far meridian_near [where c = "3 / 10000"]

lemmas flow_defs =
  calculateFlowPaths_def flowTraversal_def tankSeeds_def initialState_def buildPipelineGraph_def
  addPipeline_def CONNECT_DISTANCE_def VALVE_BLOCK_DISTANCE_def nodeKeyFor_def getNodeKey_def
  toFixed6_def pushEdge_def exploreEdge_def valveBlocks_def Let_def

section \<open>Traversal without an active tank\<close>

lemma js_div_nonzero: "b \<noteq> 0 \<Longrightarrow> js_div a b = Inr (a / b)"
  by (simp add: js_div_def)

text \<open>
  C1, as the specification states it, fails: with no active tank and one pipeline of two
  waypoints the function returns \<^verbatim>\<open>totalSegments = 0\<close>, while the sum of
  \<^verbatim>\<open>waypointCount - 1\<close> is 1.
\<close>

theorem C1_counterexample:
  "filter isActive [idleTank] = [] \<and> [shortPipe] \<noteq> [] \<and>
   calculateFlowPaths [idleTank] [] [shortPipe] =
     Inr \<lparr>fd_segments = [], fd_blockedSegments = [], totalSegments = 0\<rparr> \<and>
   spec_totalSegments [shortPipe] = 1"
  by (simp add: calculateFlowPaths_def idleTank_def shortPipe_def spec_totalSegments_def)

text \<open>
  C1, amended: for every input whose tank list contains no active tank, the flow
  propagation returns at its first test, with an empty flowing list, an empty blocked
  list and \<^verbatim>\<open>totalSegments = 0\<close>, whatever the pipelines are.
\<close>

theorem C1_no_active_tank:
  assumes "filter isActive tanks = []"
  shows "calculateFlowPaths tanks valves pipelines =
           Inr \<lparr>fd_segments = [], fd_blockedSegments = [], totalSegments = 0\<rparr>"
  using assms by (simp add: calculateFlowPaths_def)

theorem C1_no_active_tank_witness:
  "filter isActive [idleTank] = [] \<and>
   calculateFlowPaths [idleTank] [] [shortPipe, shortPipe] =
     Inr \<lparr>fd_segments = [], fd_blockedSegments = [], totalSegments = 0\<rparr>"
proof -
  have h: "filter isActive [idleTank] = []"
    by (simp add: idleTank_def)
  from h C1_no_active_tank [OF h, of "[]" "[shortPipe, shortPipe]"] show ?thesis
    by simp
qed

section \<open>The blocking rule\<close>

lemma valveBlocks_iff:
  "valveBlocks s e d v =
     (case segmentParam (valvePos v) s e of
        None \<Rightarrow> False
      | Some t \<Rightarrow> 0 \<le> t \<and> t \<le> 1 \<and> distanceToSegment (valvePos v) s e < d)"
  by (auto simp: valveBlocks_def segmentParam_def distanceToSegment_def valvePos_def Let_def)

lemma findBlockingValve_None_iff:
  "findBlockingValve s e vs d = None \<longleftrightarrow> \<not> list_ex (valveBlocks s e d) vs"
  by (induction vs) auto

lemma findBlockingValve_SomeD:
  "findBlockingValve s e vs d = Some v \<Longrightarrow> v \<in> set vs \<and> valveBlocks s e d v"
  by (induction vs) (auto split: if_splits)

lemma shortGraph:
  "buildPipelineGraph [shortPipe] CONNECT_DISTANCE =
     \<lparr>gnodes =
        [(getNodeKey 0 0,
          \<lparr>position = \<lparr>lat = 0, lng = 0\<rparr>, edges = [shortEdge]\<rparr>),
         (getNodeKey (1 / 1000) 0,
          \<lparr>position = \<lparr>lat = 1 / 1000, lng = 0\<rparr>,
           edges = [\<lparr>from_key = getNodeKey (1 / 1000) 0, to_key = getNodeKey 0 0, pipelineId = 1\<rparr>]\<rparr>)],
      gedges = [shortEdge]\<rparr>"
  by (simp add: flow_defs shortPipe_def shortEdge_def geo)

text \<open>
  C5, as the specification states it, fails: \<^verbatim>\<open>findBlockingValve\<close> does not clamp the
  projection parameter, it skips a valve whose projection falls outside the segment. The
  closed valve \<open>endValve\<close> lies about 1.1 m before the first waypoint of the short pipe,
  so its clamped point-to-segment distance is below 3 m, and the only edge is reached
  from the tank: it is classified flowing, not blocked.
\<close>

theorem C5_counterexample:
  "\<not> isOpen endValve \<and>
   distanceToSegment (valvePos endValve) \<lparr>lat = 0, lng = 0\<rparr> \<lparr>lat = 1 / 1000, lng = 0\<rparr>
     < VALVE_BLOCK_DISTANCE \<and>
   calculateFlowPaths [activeTank] [endValve] [shortPipe] =
     Inr \<lparr>fd_segments =
            [\<lparr>seg_pipelineId = 1, seg_start = \<lparr>lat = 0, lng = 0\<rparr>,
              seg_end = \<lparr>lat = 1 / 1000, lng = 0\<rparr>, seg_sourceTank = ''T1'',
              hasFlow = True, blocked = False\<rparr>],
          fd_blockedSegments = [], totalSegments = 1\<rparr>"
proof -
  have "distanceToSegment (valvePos endValve) \<lparr>lat = 0, lng = 0\<rparr> \<lparr>lat = 1 / 1000, lng = 0\<rparr>
     < VALVE_BLOCK_DISTANCE"
    by (simp add: distanceToSegment_def valvePos_def endValve_def Let_def VALVE_BLOCK_DISTANCE_def
        meridian_near [where c = "1 / 100000"])
  moreover have "calculateFlowPaths [activeTank] [endValve] [shortPipe] =
     Inr \<lparr>fd_segments =
            [\<lparr>seg_pipelineId = 1, seg_start = \<lparr>lat = 0, lng = 0\<rparr>,
              seg_end = \<lparr>lat = 1 / 1000, lng = 0\<rparr>, seg_sourceTank = ''T1'',
              hasFlow = True, blocked = False\<rparr>],
          fd_blockedSegments = [], totalSegments = 1\<rparr>"
    by (simp add: flow_defs activeTank_def endValve_def shortPipe_def geo)
  ultimately show ?thesis by (simp add: endValve_def)
qed

text \<open>
  C5, amended: a reached edge that is not yet classified, with both end nodes in the
  graph, is classified blocked if and only if, for some closed valve, the segment has a
  non-zero squared length, the valve's unclamped projection parameter lies in \<open>[0, 1]\<close>,
  and its point-to-segment distance is strictly below the block distance of 3 m;
  otherwise the edge is classified flowing. A closed valve whose projection falls beyond
  an endpoint never blocks the edge.
\<close>

theorem C5_blocking_rule:
  assumes "(from_key e, to_key e) \<notin> visitedEdges st \<union> blockedEdges st"
    and "(to_key e, from_key e) \<notin> visitedEdges st \<union> blockedEdges st"
    and "map_of (gnodes g) (from_key e) = Some a"
    and "map_of (gnodes g) (to_key e) = Some b"
  shows "\<exists>q' st'. exploreEdge g closedValves src e (q, st) = Inr (q', st') \<and>
           ((from_key e, to_key e) \<in> blockedEdges st') =
             list_ex (\<lambda>v. case segmentParam (valvePos v) (position a) (position b) of
                            None \<Rightarrow> False
                          | Some t \<Rightarrow> 0 \<le> t \<and> t \<le> 1 \<and>
                              distanceToSegment (valvePos v) (position a) (position b)
                                < VALVE_BLOCK_DISTANCE) closedValves \<and>
           ((from_key e, to_key e) \<in> visitedEdges st') =
             (\<not> ((from_key e, to_key e) \<in> blockedEdges st'))"
proof (cases "findBlockingValve (position a) (position b) closedValves VALVE_BLOCK_DISTANCE")
  case None
  with assms show ?thesis
    using findBlockingValve_None_iff [of "position a" "position b" closedValves VALVE_BLOCK_DISTANCE]
    by (simp add: exploreEdge_def Let_def valveBlocks_iff [abs_def])
next
  case (Some v)
  with assms show ?thesis
    using findBlockingValve_None_iff [of "position a" "position b" closedValves VALVE_BLOCK_DISTANCE]
    by (simp add: exploreEdge_def Let_def valveBlocks_iff [abs_def])
qed


theorem C5_blocking_rule_witness:
  "\<exists>q' st'. exploreEdge (buildPipelineGraph [shortPipe] CONNECT_DISTANCE) [midValve] ''T1'' shortEdge
              ([], initialState) = Inr (q', st') \<and>
     (from_key shortEdge, to_key shortEdge) \<in> blockedEdges st' \<and>
     (from_key shortEdge, to_key shortEdge) \<notin> visitedEdges st'"
proof -
  let ?g = "buildPipelineGraph [shortPipe] CONNECT_DISTANCE"
  have h1: "(from_key shortEdge, to_key shortEdge) \<notin> visitedEdges initialState \<union> blockedEdges initialState"
    and h2: "(to_key shortEdge, from_key shortEdge) \<notin> visitedEdges initialState \<union> blockedEdges initialState"
    by (simp_all add: initialState_def)
  have h3: "map_of (gnodes ?g) (from_key shortEdge) = Some \<lparr>position = \<lparr>lat = 0, lng = 0\<rparr>, edges = [shortEdge]\<rparr>"
    by (simp add: shortGraph) (simp add: shortEdge_def)
  have h4: "map_of (gnodes ?g) (to_key shortEdge) = Some \<lparr>position = \<lparr>lat = 1 / 1000, lng = 0\<rparr>,
           edges = [\<lparr>from_key = getNodeKey (1 / 1000) 0, to_key = getNodeKey 0 0, pipelineId = 1\<rparr>]\<rparr>"
    by (simp add: shortGraph) (simp add: shortEdge_def getNodeKey_def toFixed6_def)
  from C5_blocking_rule [OF h1 h2 h3 h4, of "[midValve]" "''T1''" "[]"] show ?thesis
    by (simp add: segmentParam_def valvePos_def midValve_def distanceToSegment_def Let_def geo
        VALVE_BLOCK_DISTANCE_def) blast
qed

section \<open>The builder's graph and the traversal\<close>

lemma keys_map_set: "fst ` set (map_set k v m) = insert k (fst ` set m)"
proof (induction m)
  case Nil
  show ?case by simp
next
  case (Cons kv m)
  obtain k' v' where kv: "kv = (k', v')" by (cases kv)
  show ?case
  proof (cases "k = k'")
    case True
    then show ?thesis by (simp add: kv)
  next
    case False
    then show ?thesis using Cons.IH by (simp add: kv insert_commute)
  qed
qed

lemma vals_map_set: "kv \<in> set (map_set k v m) \<Longrightarrow> kv = (k, v) \<or> kv \<in> set m"
proof (induction m)
  case Nil
  then show ?case by simp
next
  case (Cons kv' m)
  obtain k' v' where kv': "kv' = (k', v')" by (cases kv')
  from Cons show ?case by (cases "k = k'") (auto simp: kv')
qed

lemma findNearbyNode_key: "findNearbyNode m cd p = Some k \<Longrightarrow> k \<in> fst ` set m"
proof (induction m)
  case Nil
  then show ?case by simp
next
  case (Cons kv m)
  obtain k' nd where kv: "kv = (k', nd)" by (cases kv)
  from Cons show ?case by (cases "haversineDistance p (position nd) < cd") (simp_all add: kv)
qed

lemma keys_pushEdge: "fst ` set (pushEdge k e m) = fst ` set m"
proof -
  have "map fst (pushEdge k e m) = map fst m"
    by (induction m) (simp_all add: pushEdge_def split_beta)
  then have "set (map fst (pushEdge k e m)) = set (map fst m)" by simp
  then show ?thesis by (simp only: set_map)
qed

lemma vals_pushEdge:
  "nd \<in> snd ` set (pushEdge k e m) \<Longrightarrow> \<exists>nd0 \<in> snd ` set m. set (edges nd) \<subseteq> insert e (set (edges nd0))"
proof (induction m)
  case Nil
  then show ?case by (simp add: pushEdge_def)
next
  case (Cons kv m)
  obtain k' nd' where kv: "kv = (k', nd')" by (cases kv)
  have unfold: "pushEdge k e (kv # m) =
      (if k' = k then (k', nd'\<lparr>edges := edges nd' @ [e]\<rparr>) else (k', nd')) # pushEdge k e m"
    by (simp add: pushEdge_def kv)
  from Cons.prems have "nd = (if k' = k then nd'\<lparr>edges := edges nd' @ [e]\<rparr> else nd') \<or>
      nd \<in> snd ` set (pushEdge k e m)"
    unfolding unfold by (cases "k' = k") auto
  then show ?case
  proof
    assume "nd = (if k' = k then nd'\<lparr>edges := edges nd' @ [e]\<rparr> else nd')"
    then have "set (edges nd) \<subseteq> insert e (set (edges nd'))"
      by (cases "k' = k") auto
    moreover have "nd' \<in> snd ` set (kv # m)"
      by (simp add: kv)
    ultimately show ?thesis by blast
  next
    assume "nd \<in> snd ` set (pushEdge k e m)"
    from Cons.IH [OF this] show ?thesis by auto
  qed
qed

lemma nodeKeyFor_closed:
  assumes "nodeKeyFor g cd p = (k, g')" "graphClosed g"
  shows "k \<in> graphKeys g' \<and> graphKeys g \<subseteq> graphKeys g' \<and> graphClosed g'"
proof (cases "findNearbyNode (gnodes g) cd p")
  case None
  with assms(1) have g': "g' = g\<lparr>gnodes := map_set k \<lparr>position = p, edges = []\<rparr> (gnodes g)\<rparr>"
    by (auto simp: nodeKeyFor_def Let_def)
  have keys: "graphKeys g' = insert k (graphKeys g)"
    by (simp add: g' graphKeys_def keys_map_set)
  have "graphClosed g'"
    unfolding graphClosed_def keys
  proof (intro ballI)
    fix nd e assume nd: "nd \<in> snd ` set (gnodes g')" and e: "e \<in> set (edges nd)"
    from nd obtain k' where "(k', nd) \<in> set (map_set k \<lparr>position = p, edges = []\<rparr> (gnodes g))"
      by (auto simp: g')
    from vals_map_set [OF this] e have "(k', nd) \<in> set (gnodes g)"
      by auto
    then have "nd \<in> snd ` set (gnodes g)" by force
    with e assms(2) show "from_key e \<in> insert k (graphKeys g) \<and> to_key e \<in> insert k (graphKeys g)"
      unfolding graphClosed_def by blast
  qed
  with keys show ?thesis by blast
next
  case (Some k')
  with assms(1) have "k = k'" "g' = g"
    by (simp_all add: nodeKeyFor_def)
  with Some assms(2) findNearbyNode_key [OF Some] show ?thesis
    by (simp add: graphKeys_def)
qed

lemma addEdges_closed:
  assumes "graphClosed g"
    "from_key e1 \<in> graphKeys g" "to_key e1 \<in> graphKeys g"
    "from_key e2 \<in> graphKeys g" "to_key e2 \<in> graphKeys g"
  shows "graphClosed (g\<lparr>gnodes := pushEdge k2 e2 (pushEdge k1 e1 (gnodes g)), gedges := es\<rparr>)"
proof -
  let ?g' = "g\<lparr>gnodes := pushEdge k2 e2 (pushEdge k1 e1 (gnodes g)), gedges := es\<rparr>"
  have keys: "graphKeys ?g' = graphKeys g"
    by (simp add: graphKeys_def keys_pushEdge)
  show ?thesis
    unfolding graphClosed_def keys
  proof (intro ballI)
    fix nd e
    assume nd: "nd \<in> snd ` set (gnodes ?g')" and e: "e \<in> set (edges nd)"
    from nd have "nd \<in> snd ` set (pushEdge k2 e2 (pushEdge k1 e1 (gnodes g)))" by simp
    from vals_pushEdge [OF this] obtain nd1 where nd1: "nd1 \<in> snd ` set (pushEdge k1 e1 (gnodes g))"
      and s1: "set (edges nd) \<subseteq> insert e2 (set (edges nd1))"
      by blast
    from vals_pushEdge [OF nd1] obtain nd0 where nd0: "nd0 \<in> snd ` set (gnodes g)"
      and s0: "set (edges nd1) \<subseteq> insert e1 (set (edges nd0))"
      by blast
    from e s1 s0 have "e = e2 \<or> e = e1 \<or> e \<in> set (edges nd0)" by blast
    moreover have "from_key e' \<in> graphKeys g \<and> to_key e' \<in> graphKeys g" if "e' \<in> set (edges nd0)" for e'
      using assms(1) nd0 that unfolding graphClosed_def by blast
    ultimately show "from_key e \<in> graphKeys g \<and> to_key e \<in> graphKeys g"
      using assms(2-5) by blast
  qed
qed

lemma addWaypoints_closed:
  "graphClosed g \<Longrightarrow> graphClosed (addWaypoints cd i ws g)"
proof (induction cd i ws g rule: addWaypoints.induct)
  case (1 cd i g)
  then show ?case by simp
next
  case (2 cd i rest g)
  then show ?case by simp
next
  case (3 cd i nodePos rest g)
  obtain k g1 where r1: "nodeKeyFor g cd nodePos = (k, g1)" by (cases "nodeKeyFor g cd nodePos")
  from nodeKeyFor_closed [OF r1 "3.prems"]
  have k1: "k \<in> graphKeys g1" and c1: "graphClosed g1" by blast+
  show ?case
  proof (cases rest)
    case Nil
    with r1 c1 show ?thesis by simp
  next
    case (Cons w rest')
    show ?thesis
    proof (cases w)
      case None
      have "addWaypoints cd i (Some nodePos # rest) g = addWaypoints cd i rest g1"
        by (subst addWaypoints.simps(3)) (simp add: r1 Cons None del: addWaypoints.simps)
      with "3.IH"(1) [OF refl r1 [symmetric] Cons None c1] show ?thesis by simp
    next
      case (Some q)
      obtain k' g2 where r2: "nodeKeyFor g1 cd q = (k', g2)" by (cases "nodeKeyFor g1 cd q")
      from nodeKeyFor_closed [OF r2 c1] k1
      have k2: "k' \<in> graphKeys g2" "k \<in> graphKeys g2" and c2: "graphClosed g2" by blast+
      let ?e = "\<lparr>from_key = k, to_key = k', pipelineId = i\<rparr>"
      let ?r = "\<lparr>from_key = k', to_key = k, pipelineId = i\<rparr>"
      let ?g3 = "g2\<lparr>gnodes := pushEdge k' ?r (pushEdge k ?e (gnodes g2)), gedges := gedges g2 @ [?e]\<rparr>"
      have c3: "graphClosed ?g3"
        by (rule addEdges_closed [OF c2]) (simp_all add: k2)
      have "addWaypoints cd i (Some nodePos # rest) g = addWaypoints cd i rest ?g3"
        by (subst addWaypoints.simps(3)) (simp add: r1 r2 Cons Some Let_def del: addWaypoints.simps)
      with "3.IH"(2) [OF refl r1 [symmetric] Cons Some refl r2 [symmetric] refl refl refl c3]
      show ?thesis by simp
    qed
  qed
qed

lemma buildPipelineGraph_closed: "graphClosed (buildPipelineGraph pipelines cd)"
proof -
  have "graphClosed g \<Longrightarrow> graphClosed (foldl (addPipeline cd) g pipelines)" for g
  proof (induction pipelines arbitrary: g)
    case Nil
    then show ?case by simp
  next
    case (Cons p ps)
    have "graphClosed (addPipeline cd g p)"
      using Cons.prems by (auto simp: addPipeline_def addWaypoints_closed split: nodes_text.splits)
    from Cons.IH [OF this] show ?case by simp
  qed
  moreover have "graphClosed \<lparr>gnodes = [], gedges = []\<rparr>"
    by (simp add: graphClosed_def)
  ultimately show ?thesis by (simp add: buildPipelineGraph_def)
qed


lemma unordered_fresh:
  assumes "(a, b) \<notin> S" "(b, a) \<notin> S"
  shows "{a, b} \<notin> unordered ` S"
proof
  assume "{a, b} \<in> unordered ` S"
  then obtain c d where cd: "(c, d) \<in> S" and eq: "{a, b} = {c, d}"
    by (auto simp: unordered_def)
  from eq have "(a = c \<and> b = d) \<or> (a = d \<and> b = c)"
    by (simp add: doubleton_eq_iff)
  with cd assms show False by auto
qed

lemma card_unordered_insert:
  assumes "finite S" "(a, b) \<notin> S" "(b, a) \<notin> S"
  shows "card (unordered ` insert (b, a) (insert (a, b) S)) = Suc (card (unordered ` S))"
proof -
  have "unordered ` insert (b, a) (insert (a, b) S) = insert {a, b} (unordered ` S)"
    by (auto simp: unordered_def)
  with unordered_fresh [OF assms(2,3)] assms(1) show ?thesis by simp
qed

lemma converse_insert_both:
  assumes "S\<inverse> = S"
  shows "(insert (b, a) (insert (a, b) S))\<inverse> = insert (b, a) (insert (a, b) S)"
  using assms by auto

lemma exploreEdge_classifiedOnce:
  assumes "exploreEdge g cv src e (q, st) = Inr (q', st')" "classifiedOnce st"
  shows "classifiedOnce st'"
proof -
  let ?k = "(from_key e, to_key e)" and ?r = "(to_key e, from_key e)"
  show ?thesis
  proof (cases "?k \<in> visitedEdges st \<or> ?r \<in> visitedEdges st \<or> ?k \<in> blockedEdges st \<or> ?r \<in> blockedEdges st")
    case True
    with assms(1) have "st' = st"
      by (auto simp: exploreEdge_def Let_def split: if_splits)
    with assms(2) show ?thesis by simp
  next
    case False
    then have fresh: "?k \<notin> visitedEdges st" "?r \<notin> visitedEdges st"
      "?k \<notin> blockedEdges st" "?r \<notin> blockedEdges st"
      by auto
    from assms(2) have fin: "finite (visitedEdges st)" "finite (blockedEdges st)"
      and sym: "(visitedEdges st)\<inverse> = visitedEdges st" "(blockedEdges st)\<inverse> = blockedEdges st"
      and disj: "visitedEdges st \<inter> blockedEdges st = {}"
      and cv: "card (unordered ` visitedEdges st) = length (segments st)"
      and cb: "card (unordered ` blockedEdges st) = length (blockedSegments st)"
      by (simp_all add: classifiedOnce_def)
    show ?thesis
    proof (cases "map_of (gnodes g) (from_key e)")
      case None
      with assms(1) fresh show ?thesis by (simp add: exploreEdge_def)
    next
      case fromNode: (Some a)
      show ?thesis
      proof (cases "map_of (gnodes g) (to_key e)")
        case None
        with fromNode assms(1) fresh show ?thesis by (simp add: exploreEdge_def)
      next
        case toNode: (Some b)
        show ?thesis
        proof (cases "findBlockingValve (position a) (position b) cv VALVE_BLOCK_DISTANCE")
          case None
          with fromNode toNode assms(1) fresh
          have st': "visitedEdges st' = insert ?r (insert ?k (visitedEdges st))"
            "length (segments st') = Suc (length (segments st))"
            "blockedEdges st' = blockedEdges st" "blockedSegments st' = blockedSegments st"
            by (auto simp: exploreEdge_def Let_def)
          show ?thesis
            unfolding classifiedOnce_def st'
            using fin sym disj cv cb fresh
              card_unordered_insert [OF fin(1) fresh(1,2)] converse_insert_both [OF sym(1)]
            by simp
        next
          case (Some v)
          with fromNode toNode assms(1) fresh
          have st': "blockedEdges st' = insert ?r (insert ?k (blockedEdges st))"
            "length (blockedSegments st') = Suc (length (blockedSegments st))"
            "visitedEdges st' = visitedEdges st" "segments st' = segments st"
            by (auto simp: exploreEdge_def Let_def)
          show ?thesis
            unfolding classifiedOnce_def st'
            using fin sym disj cv cb fresh
              card_unordered_insert [OF fin(2) fresh(3,4)] converse_insert_both [OF sym(2)]
            by simp
        qed
      qed
    qed
  qed
qed

lemma exploreEdge_returns:
  assumes "from_key e \<in> graphKeys g" "to_key e \<in> graphKeys g"
  shows "\<exists>r. exploreEdge g cv src e qs = Inr r"
proof -
  from assms obtain a b where
    "map_of (gnodes g) (from_key e) = Some a" "map_of (gnodes g) (to_key e) = Some b"
    unfolding graphKeys_def by (metis map_of_eq_None_iff not_Some_eq)
  then show ?thesis
    by (cases qs) (simp add: exploreEdge_def Let_def split: option.splits)
qed

lemma exploreEdges_returns:
  assumes "\<forall>e \<in> set es. from_key e \<in> graphKeys g \<and> to_key e \<in> graphKeys g" "classifiedOnce (snd qs)"
  shows "\<exists>q' st'. exploreEdges g cv src es qs = Inr (q', st') \<and> classifiedOnce st'"
  using assms
proof (induction es arbitrary: qs)
  case Nil
  then show ?case by (cases qs) simp
next
  case (Cons e es)
  obtain q st where qs: "qs = (q, st)" by (cases qs)
  from Cons.prems(1) have "from_key e \<in> graphKeys g" "to_key e \<in> graphKeys g" by simp_all
  from exploreEdge_returns [OF this] obtain q1 st1 where
    s1: "exploreEdge g cv src e (q, st) = Inr (q1, st1)"
    by (metis surj_pair)
  from exploreEdge_classifiedOnce [OF s1] Cons.prems(2) have "classifiedOnce (snd (q1, st1))"
    by (simp add: qs)
  moreover from Cons.prems(1) have "\<forall>e \<in> set es. from_key e \<in> graphKeys g \<and> to_key e \<in> graphKeys g"
    by simp
  ultimately have "\<exists>q' st'. exploreEdges g cv src es (q1, st1) = Inr (q', st') \<and> classifiedOnce st'"
    by (rule Cons.IH [rotated])
  then show ?case by (simp add: qs s1)
qed

lemma bfs_returns:
  assumes "graphClosed g" "classifiedOnce st"
  shows "\<exists>st'. bfs g cv q st = Inr st' \<and> classifiedOnce st'"
  using assms
proof (induction g cv q st rule: bfs.induct)
  case (1 g cv st)
  then show ?case by simp
next
  case (2 g cv current queue st)
  let ?st1 = "st\<lparr>visitedNodes := insert (nodeKey current) (visitedNodes st)\<rparr>"
  have c1: "classifiedOnce ?st1"
    using "2.prems"(2) by (simp add: classifiedOnce_def)
  show ?case
  proof (cases "nodeKey current \<in> visitedNodes st")
    case True
    with "2.IH"(1) [OF True "2.prems"] show ?thesis by simp
  next
    case False
    show ?thesis
    proof (cases "map_of (gnodes g) (nodeKey current)")
      case None
      with "2.IH"(2) [OF False refl None "2.prems"(1) c1] False show ?thesis by simp
    next
      case (Some currentNode)
      then have "currentNode \<in> snd ` set (gnodes g)"
        by (force dest: map_of_SomeD)
      with "2.prems"(1) have "\<forall>e \<in> set (edges currentNode). from_key e \<in> graphKeys g \<and> to_key e \<in> graphKeys g"
        unfolding graphClosed_def by blast
      from exploreEdges_returns [OF this, of "(queue, ?st1)" cv "sourceTank current"] c1
      obtain q' st2 where
        ex: "exploreEdges g cv (sourceTank current) (edges currentNode) (queue, ?st1) = Inr (q', st2)"
        and c2: "classifiedOnce st2"
        by auto
      from "2.IH"(3) [OF False refl Some ex refl "2.prems"(1) c2] False Some ex
      show ?thesis by simp
    qed
  qed
qed

lemma traverseTanks_returns:
  assumes "graphClosed g" "classifiedOnce st"
  shows "\<exists>st'. traverseTanks g cv ts st = Inr st' \<and> classifiedOnce st'"
  using assms(2)
proof (induction ts arbitrary: st)
  case Nil
  then show ?case by simp
next
  case (Cons t ts)
  from bfs_returns [OF assms(1) Cons.prems, of cv "tankSeeds g t"] obtain st1 where
    "bfs g cv (tankSeeds g t) st = Inr st1" "classifiedOnce st1"
    by blast
  with Cons.IH [of st1] show ?case by simp
qed

lemma flowTraversal_returns:
  "\<exists>st. flowTraversal ts valves pipelines = Inr st \<and> classifiedOnce st"
proof -
  have "classifiedOnce initialState"
    by (simp add: classifiedOnce_def initialState_def)
  from traverseTanks_returns [OF buildPipelineGraph_closed this] show ?thesis
    by (simp add: flowTraversal_def Let_def)
qed


section \<open>A pipeline that does not parse\<close>

lemma countSegments_unparsable:
  "p \<in> set pipelines \<Longrightarrow> nodes p = Unparsable \<Longrightarrow>
     countSegments pipelines n = Inl SyntaxError \<or> countSegments pipelines n = Inl TypeError"
proof (induction pipelines arbitrary: n)
  case Nil
  then show ?case by simp
next
  case (Cons p' ps)
  show ?case
  proof (cases "nodes p'")
    case Unparsable
    then show ?thesis by simp
  next
    case JsonNull
    then show ?thesis by simp
  next
    case (JsonArray ws)
    with Cons.prems have "p \<in> set ps" by auto
    from Cons.IH [OF this Cons.prems(2)] JsonArray show ?thesis by simp
  qed
qed

text \<open>
  C4 does not hold of the code. The graph builder skips a pipeline whose text does not
  parse, as the claim says; but with an active tank, \<^verbatim>\<open>calculateFlowPaths\<close> parses
  the text of every pipeline again for \<^verbatim>\<open>totalSegments\<close>, with no handler, and the whole
  computation stops with the exception.
\<close>

theorem C4_unparsable_pipeline_aborts:
  assumes "filter isActive tanks \<noteq> []" and "p \<in> set pipelines" and "nodes p = Unparsable"
  shows "addPipeline CONNECT_DISTANCE g p = g \<and>
         (calculateFlowPaths tanks valves pipelines = Inl SyntaxError \<or>
          calculateFlowPaths tanks valves pipelines = Inl TypeError)"
proof -
  obtain st where "flowTraversal (filter isActive tanks) valves pipelines = Inr st"
    using flowTraversal_returns by blast
  with assms(1) countSegments_unparsable [OF assms(2,3), of 0] show ?thesis
    by (auto simp: calculateFlowPaths_def Let_def addPipeline_def assms(3))
qed

theorem C4_unparsable_pipeline_aborts_witness:
  "addPipeline CONNECT_DISTANCE \<lparr>gnodes = [], gedges = []\<rparr> brokenPipe = \<lparr>gnodes = [], gedges = []\<rparr> \<and>
   calculateFlowPaths [activeTank] [] [brokenPipe, shortPipe] = Inl SyntaxError"
proof -
  have "filter isActive [activeTank] \<noteq> []" "brokenPipe \<in> set [brokenPipe, shortPipe]"
    "nodes brokenPipe = Unparsable"
    by (simp_all add: activeTank_def brokenPipe_def)
  from C4_unparsable_pipeline_aborts [OF this, of "\<lparr>gnodes = [], gedges = []\<rparr>" "[]"]
  have "addPipeline CONNECT_DISTANCE \<lparr>gnodes = [], gedges = []\<rparr> brokenPipe = \<lparr>gnodes = [], gedges = []\<rparr>"
    by blast
  moreover have "calculateFlowPaths [activeTank] [] [brokenPipe, shortPipe] = Inl SyntaxError"
    by (simp add: flow_defs activeTank_def brokenPipe_def shortPipe_def geo)
  ultimately show ?thesis by blast
qed

section \<open>One classification per segment\<close>

lemma scenarioB_traversal:
  "flowTraversal (filter isActive [activeTank]) [farValve] [longPipe] = Inr scenarioB"
  by (simp add: flow_defs activeTank_def farValve_def longPipe_def geo scenarioB_def)

text \<open>
  C7: for every input the traversal returns, and in its final state every physical
  sub-segment is classified once: both edge sets hold each classified edge in both
  directions, no edge is both flowing and blocked, and the flowing and the blocked list
  (the output of \<^verbatim>\<open>calculateFlowPaths\<close>) have one entry per unordered node pair. An
  edge whose key or reverse key is in either set is never reconsidered: the callback
  leaves the queue and the state as they are.
\<close>

theorem C7_one_classification:
  "(\<exists>st. flowTraversal (filter isActive tanks) valves pipelines = Inr st \<and>
         classifiedOnce st \<and>
         (\<forall>r. filter isActive tanks \<noteq> [] \<longrightarrow>
              calculateFlowPaths tanks valves pipelines = Inr r \<longrightarrow>
              fd_segments r = segments st \<and> fd_blockedSegments r = blockedSegments st)) \<and>
   ((from_key e, to_key e) \<in> visitedEdges st0 \<union> blockedEdges st0 \<or>
    (to_key e, from_key e) \<in> visitedEdges st0 \<union> blockedEdges st0 \<longrightarrow>
      exploreEdge g closedValves src e (q, st0) = Inr (q, st0))"
proof -
  obtain st where st: "flowTraversal (filter isActive tanks) valves pipelines = Inr st"
    and once: "classifiedOnce st"
    using flowTraversal_returns by blast
  have "fd_segments r = segments st \<and> fd_blockedSegments r = blockedSegments st"
    if "filter isActive tanks \<noteq> []" "calculateFlowPaths tanks valves pipelines = Inr r" for r
    using that st by (auto simp: calculateFlowPaths_def Let_def split: sum.splits)
  with st once have "\<exists>st. flowTraversal (filter isActive tanks) valves pipelines = Inr st \<and>
         classifiedOnce st \<and>
         (\<forall>r. filter isActive tanks \<noteq> [] \<longrightarrow>
              calculateFlowPaths tanks valves pipelines = Inr r \<longrightarrow>
              fd_segments r = segments st \<and> fd_blockedSegments r = blockedSegments st)"
    by blast
  moreover have "exploreEdge g closedValves src e (q, st0) = Inr (q, st0)"
    if "(from_key e, to_key e) \<in> visitedEdges st0 \<union> blockedEdges st0 \<or>
        (to_key e, from_key e) \<in> visitedEdges st0 \<union> blockedEdges st0"
    using that by (auto simp: exploreEdge_def Let_def)
  ultimately show ?thesis by blast
qed


theorem C7_one_classification_witness:
  "flowTraversal (filter isActive [activeTank]) [farValve] [longPipe] = Inr scenarioB \<and>
   classifiedOnce scenarioB \<and>
   calculateFlowPaths [activeTank] [farValve] [longPipe] =
     Inr \<lparr>fd_segments = segments scenarioB, fd_blockedSegments = blockedSegments scenarioB,
          totalSegments = 2\<rparr> \<and>
   exploreEdge (buildPipelineGraph [longPipe] CONNECT_DISTANCE) [farValve] ''T1''
       \<lparr>from_key = getNodeKey (1 / 1000) 0, to_key = getNodeKey 0 0, pipelineId = 3\<rparr>
       ([], scenarioB) = Inr ([], scenarioB)"
proof -
  let ?e = "\<lparr>from_key = getNodeKey (1 / 1000) 0, to_key = getNodeKey 0 0, pipelineId = 3\<rparr>"
  have seen: "(from_key ?e, to_key ?e) \<in> visitedEdges scenarioB \<union> blockedEdges scenarioB \<or>
      (to_key ?e, from_key ?e) \<in> visitedEdges scenarioB \<union> blockedEdges scenarioB"
    by (simp add: scenarioB_def)
  have active: "filter isActive [activeTank] \<noteq> []"
    by (simp add: activeTank_def)
  have count: "countSegments [longPipe] 0 = Inr 2"
    by (simp add: longPipe_def)
  from C7_one_classification [of "[activeTank]" "[farValve]" "[longPipe]" ?e scenarioB
      "buildPipelineGraph [longPipe] CONNECT_DISTANCE" "[farValve]" "''T1''" "[]"]
    seen scenarioB_traversal
  have "classifiedOnce scenarioB"
    and "exploreEdge (buildPipelineGraph [longPipe] CONNECT_DISTANCE) [farValve] ''T1'' ?e
           ([], scenarioB) = Inr ([], scenarioB)"
    by auto
  moreover have "calculateFlowPaths [activeTank] [farValve] [longPipe] =
     Inr \<lparr>fd_segments = segments scenarioB, fd_blockedSegments = blockedSegments scenarioB,
          totalSegments = 2\<rparr>"
    using active scenarioB_traversal count by (simp add: calculateFlowPaths_def Let_def)
  ultimately show ?thesis using scenarioB_traversal by simp
qed

section \<open>The distribution loop\<close>

lemma map_of_map_set: "map_of (map_set k v m) = (map_of m)(k \<mapsto> v)"
proof (induction m)
  case Nil
  show ?case by simp
next
  case (Cons kv m)
  obtain k' v' where kv: "kv = (k', v')" by (cases kv)
  show ?case using Cons.IH by (auto simp: kv)
qed

lemma map_fst_map_set: "map_of m k = Some x \<Longrightarrow> map fst (map_set k v m) = map fst m"
proof (induction m)
  case Nil
  then show ?case by simp
next
  case (Cons kv m)
  obtain k' v' where kv: "kv = (k', v')" by (cases kv)
  from Cons show ?case by (cases "k = k'") (simp_all add: kv)
qed

lemma giveToChild_keys: "map fst (giveToChild f t c) = map fst t"
  by (simp add: giveToChild_def map_fst_map_set split: option.splits)

lemma giveToChild_lookup:
  "map_of (giveToChild f t c) k =
     (case map_of t k of
        None \<Rightarrow> None
      | Some n \<Rightarrow> Some (if k = valveId c then n\<lparr>totalFlow := of_int (households c) * f\<rparr> else n))"
  by (auto simp: giveToChild_def map_of_map_set split: option.splits)

lemma giveToChildren_keys: "map fst (foldl (giveToChild f) t cs) = map fst t"
  by (induction cs arbitrary: t) (simp_all add: giveToChild_keys)

lemma giveToChildren_None:
  "map_of t k = None \<Longrightarrow> map_of (foldl (giveToChild f) t cs) k = None"
  by (induction cs arbitrary: t) (simp_all add: giveToChild_lookup)

lemma giveToChildren_Some:
  "map_of t k = Some n \<Longrightarrow>
     \<exists>x. map_of (foldl (giveToChild f) t cs) k = Some (n\<lparr>totalFlow := x\<rparr>) \<and>
         (x = totalFlow n \<or> x \<in> (\<lambda>c. of_int (households c) * f) ` set cs)"
proof (induction cs arbitrary: t n)
  case Nil
  then show ?case by simp
next
  case (Cons c cs)
  let ?n1 = "if k = valveId c then n\<lparr>totalFlow := of_int (households c) * f\<rparr> else n"
  have "map_of (giveToChild f t c) k = Some ?n1"
    using Cons.prems by (simp add: giveToChild_lookup)
  from Cons.IH [OF this] obtain x where
    x: "map_of (foldl (giveToChild f) (giveToChild f t c) cs) k = Some (?n1\<lparr>totalFlow := x\<rparr>)"
    and xx: "x = totalFlow ?n1 \<or> x \<in> (\<lambda>c. of_int (households c) * f) ` set cs"
    by blast
  have "?n1\<lparr>totalFlow := x\<rparr> = n\<lparr>totalFlow := x\<rparr>" by simp
  with x have "map_of (foldl (giveToChild f) t (c # cs)) k = Some (n\<lparr>totalFlow := x\<rparr>)"
    by simp
  moreover from xx have "x = totalFlow n \<or> x \<in> (\<lambda>c. of_int (households c) * f) ` set (c # cs)"
    by (auto split: if_splits)
  ultimately show ?case by blast
qed

text \<open>The three cases of the callback.\<close>

lemma distributeNode_absent:
  "map_of tree key = None \<Longrightarrow> distributeNode key (tree, acc) = Inr (tree, acc)"
  by (simp add: distributeNode_def)

lemma distributeNode_idle:
  assumes "map_of tree key = Some node" "\<not> (isOpen (valve node) \<and> 0 < openHouseholds node)"
  shows "distributeNode key (tree, acc) =
           Inr (tree, acc\<lparr>sumHouseholds := sumHouseholds acc + totalHouseholds node,
                           sumFlow := sumFlow acc + totalFlow node\<rparr>)"
  using assms by (auto simp: distributeNode_def openHouseholds_def Let_def addNodeFlow_def)

lemma distributeNode_open:
  assumes "map_of tree key = Some node" "isOpen (valve node)" "0 < openHouseholds node"
  shows "\<exists>x. distributeNode key (tree, acc) =
           Inr (foldl (giveToChild (totalFlow node / of_int (openHouseholds node)))
                  (map_set key
                     (node\<lparr>servedHouseholds := min (openHouseholds node) \<lfloor>totalFlow node / 10\<rfloor>,
                           directFlow := Some (of_int (directHouseholds node) *
                                                 (totalFlow node / of_int (openHouseholds node)))\<rparr>) tree)
                  (filter isOpen (children node)),
                acc\<lparr>sumHouseholds := sumHouseholds acc + totalHouseholds node,
                    sumServed := sumServed acc + min (openHouseholds node) \<lfloor>totalFlow node / 10\<rfloor>,
                    sumFlow := sumFlow acc + x\<rparr>) \<and>
             (x = totalFlow node \<or>
              x \<in> (\<lambda>c. of_int (households c) * (totalFlow node / of_int (openHouseholds node))) `
                    set (filter isOpen (children node)))"
proof -
  let ?f = "totalFlow node / of_int (openHouseholds node)"
  let ?n1 = "node\<lparr>servedHouseholds := min (openHouseholds node) \<lfloor>totalFlow node / 10\<rfloor>,
                    directFlow := Some (of_int (directHouseholds node) * ?f)\<rparr>"
  let ?t1 = "map_set key ?n1 tree"
  have "map_of ?t1 key = Some ?n1" by (simp add: map_of_map_set)
  from giveToChildren_Some [OF this, of ?f "filter isOpen (children node)"] obtain x where
    x: "map_of (foldl (giveToChild ?f) ?t1 (filter isOpen (children node))) key = Some (?n1\<lparr>totalFlow := x\<rparr>)"
    and xx: "x = totalFlow ?n1 \<or> x \<in> (\<lambda>c. of_int (households c) * ?f) ` set (filter isOpen (children node))"
    by blast
  have "distributeNode key (tree, acc) =
           Inr (foldl (giveToChild ?f) ?t1 (filter isOpen (children node)),
                acc\<lparr>sumHouseholds := sumHouseholds acc + totalHouseholds node,
                    sumServed := sumServed acc + min (openHouseholds node) \<lfloor>totalFlow node / 10\<rfloor>,
                    sumFlow := sumFlow acc + x\<rparr>)"
    using assms x
    by (simp add: distributeNode_def openHouseholds_def [symmetric] Let_def addNodeFlow_def js_div_def)
  with xx show ?thesis by auto
qed

section \<open>What the distribution leaves as it is\<close>

lemma project_keys: "map fst (project h m) = map fst m"
  by (induction m) (auto simp: project_def)

lemma map_of_project: "map_of (project h m) k = map_option h (map_of m k)"
  by (induction m) (auto simp: project_def)

lemma project_map_set:
  "map_of m k = Some old \<Longrightarrow> h v = h old \<Longrightarrow> project h (map_set k v m) = project h m"
proof (induction m)
  case Nil
  then show ?case by simp
next
  case (Cons kv m)
  obtain k' v' where kv: "kv = (k', v')" by (cases kv)
  from Cons show ?case by (cases "k = k'") (simp_all add: kv project_def)
qed

lemma project_giveToChild:
  assumes "\<And>n x. h (n\<lparr>totalFlow := x\<rparr>) = h n"
  shows "project h (giveToChild f t c) = project h t"
  by (simp add: giveToChild_def project_map_set assms split: option.splits)

lemma project_giveToChildren:
  assumes "\<And>n x. h (n\<lparr>totalFlow := x\<rparr>) = h n"
  shows "project h (foldl (giveToChild f) t cs) = project h t"
  by (induction cs arbitrary: t) (simp_all add: project_giveToChild assms)

lemma distributeNode_returns:
  "\<exists>tree' acc'. distributeNode key (tree, acc) = Inr (tree', acc')"
proof (cases "map_of tree key")
  case None
  then show ?thesis by (simp add: distributeNode_absent)
next
  case (Some node)
  show ?thesis
  proof (cases "isOpen (valve node) \<and> 0 < openHouseholds node")
    case True
    with distributeNode_open [OF Some, of acc] show ?thesis by blast
  next
    case False
    from distributeNode_idle [OF Some this, of acc] show ?thesis by blast
  qed
qed

lemma distributeNode_project:
  assumes "distributeNode key (tree, acc) = Inr (tree', acc')"
    and "\<And>n x. h (n\<lparr>totalFlow := x\<rparr>) = h n"
    and "\<And>n a b. h (n\<lparr>servedHouseholds := a, directFlow := b\<rparr>) = h n"
  shows "project h tree' = project h tree"
proof (cases "map_of tree key")
  case None
  with assms(1) show ?thesis by (simp add: distributeNode_absent)
next
  case (Some node)
  show ?thesis
  proof (cases "isOpen (valve node) \<and> 0 < openHouseholds node")
    case True
    with distributeNode_open [OF Some, of acc] assms(1) show ?thesis
      by (auto simp: project_giveToChildren [of h, OF assms(2)] project_map_set [OF Some] assms(3))
  next
    case False
    from distributeNode_idle [OF Some this, of acc] assms(1) show ?thesis by simp
  qed
qed


lemma distributeAll_returns:
  "\<exists>tree' acc'. distributeAll keys (tree, acc) = Inr (tree', acc')"
proof (induction keys arbitrary: tree acc)
  case Nil
  show ?case by simp
next
  case (Cons key keys)
  from distributeNode_returns obtain t1 a1 where "distributeNode key (tree, acc) = Inr (t1, a1)"
    by blast
  with Cons.IH [of t1 a1] show ?case by simp
qed



lemma calculateSupplyOverview_Inr:
  assumes "calculateSupplyOverview tanks valves pipelines = Inr r"
  obtains flowData tree3 acc cov avg regs where
    "calculateFlowPaths tanks valves pipelines = Inr flowData"
    "distributeAll (map fst (estimatedTree flowData valves pipelines))
       (estimatedTree flowData valves pipelines, zeroTally) = Inr (tree3, acc)"
    "coverageOf (sumHouseholds acc) (sumServed acc) = Inr cov"
    "avgSupplyOf (sumFlow acc) (sumServed acc) = Inr avg"
    "stats r =
       \<lparr>stats_totalHouseholds = sumHouseholds acc, stats_servedHouseholds = sumServed acc,
        coverage = toFixedNum 1 cov, stats_totalFlow = toFixedNum 0 (sumFlow acc),
        avgSupplyPerHousehold = toFixedNum 1 avg,
        mainValves = length (filter (\<lambda>v. category v = ''main'') valves),
        subValves = length (filter (\<lambda>v. category v = ''sub'') valves),
        activeTanks = length (filter isActive tanks)\<rparr>"
    "addRegions tree3 [] valves = Inr regs"
    "regions r = objectValues regs"
    "valveTree r = map snd tree3"
  using assms
  by (auto simp: calculateSupplyOverview_def estimatedTree_def zeroTally_def Let_def
      split: sum.splits prod.splits)



lemma project_setDirectHouseholds:
  assumes "\<And>n x. h (n\<lparr>directHouseholds := x\<rparr>) = h n"
  shows "project h (foldl setDirectHouseholds t vs) = project h t"
proof (induction vs arbitrary: t)
  case Nil
  show ?case by simp
next
  case (Cons v vs)
  have "project h (setDirectHouseholds t v) = project h t"
    by (simp add: setDirectHouseholds_def Let_def project_map_set assms split: option.splits)
  with Cons.IH [of "setDirectHouseholds t v"] show ?case by simp
qed

lemma project_estimateFlow:
  assumes "\<And>n x. h (n\<lparr>totalFlow := x\<rparr>) = h n"
  shows "project h (map (\<lambda>(k, node). (k, estimateFlow fd ps node)) t) = project h t"
  by (induction t) (auto simp: project_def estimateFlow_def Let_def assms)



section \<open>Entries of the valve tree\<close>

text \<open>
  The tree has one entry for each id of a main valve, and the keys are distinct. The
  steps after line 607 change no entry's valve or children, so every entry of the
  returned tree is that of a main valve, under its id, with the children lines 594 and
  601 select.
\<close>

lemma buildValveTree_nodes:
  assumes "(k, n) \<in> set (buildValveTree mainVs subVs)"
  shows "\<exists>v \<in> set mainVs. k = valveId v \<and> n = newTreeNode subVs v"
proof -
  have "(k, n) \<in> set (foldl (\<lambda>tree v. map_set (valveId v) (newTreeNode subVs v) tree) m vs) \<Longrightarrow>
        (k, n) \<in> set m \<or> (\<exists>v \<in> set vs. k = valveId v \<and> n = newTreeNode subVs v)" for m vs
  proof (induction vs arbitrary: m)
    case Nil
    then show ?case by simp
  next
    case (Cons v vs)
    from Cons.IH [of "map_set (valveId v) (newTreeNode subVs v) m"] Cons.prems
    have "(k, n) \<in> set (map_set (valveId v) (newTreeNode subVs v) m) \<or>
        (\<exists>v \<in> set vs. k = valveId v \<and> n = newTreeNode subVs v)"
      by simp
    then show ?case
    proof
      assume "(k, n) \<in> set (map_set (valveId v) (newTreeNode subVs v) m)"
      from vals_map_set [OF this] show ?thesis by auto
    next
      assume "\<exists>v \<in> set vs. k = valveId v \<and> n = newTreeNode subVs v"
      then show ?thesis by auto
    qed
  qed
  from this [of "[]" mainVs] assms show ?thesis
    by (simp add: buildValveTree_def)
qed

lemma map_set_distinct: "distinct (map fst m) \<Longrightarrow> distinct (map fst (map_set k v m))"
proof (induction m)
  case Nil
  show ?case by simp
next
  case (Cons kv m)
  obtain k' v' where kv: "kv = (k', v')" by (cases kv)
  from Cons show ?case by (cases "k = k'") (auto simp: kv keys_map_set)
qed

lemma buildValveTree_keys: "distinct (map fst (buildValveTree mainVs subVs))"
proof -
  have "distinct (map fst m) \<Longrightarrow>
        distinct (map fst (foldl (\<lambda>tree v. map_set (valveId v) (newTreeNode subVs v) tree) m vs))"
    for m vs
    by (induction vs arbitrary: m) (simp_all add: map_set_distinct)
  from this [of "[]"] show ?thesis by (simp add: buildValveTree_def)
qed

lemma estimatedTree_project:
  assumes "\<And>n x. h (n\<lparr>directHouseholds := x\<rparr>) = h n" "\<And>n x. h (n\<lparr>totalFlow := x\<rparr>) = h n"
  shows "project h (estimatedTree fd valves ps) =
           project h (buildValveTree (filter (\<lambda>v. category v = ''main'') valves)
                        (filter (\<lambda>v. category v = ''sub'') valves))"
  unfolding estimatedTree_def Let_def
  by (simp add: project_estimateFlow project_setDirectHouseholds assms)

lemma estimatedTree_keys: "distinct (map fst (estimatedTree fd valves ps))"
proof -
  have "map fst (estimatedTree fd valves ps) =
        map fst (buildValveTree (filter (\<lambda>v. category v = ''main'') valves)
                        (filter (\<lambda>v. category v = ''sub'') valves))"
    using arg_cong [OF estimatedTree_project [of "\<lambda>n. ()" fd valves ps], of "map fst"]
    by (simp add: project_keys)
  then show ?thesis by (simp add: buildValveTree_keys)
qed

lemma project_entry:
  assumes "project h t = project h t'" "(k, n) \<in> set t"
  shows "\<exists>n'. (k, n') \<in> set t' \<and> h n' = h n"
proof -
  from assms(2) have "(k, h n) \<in> set (project h t)" by (force simp: project_def)
  with assms(1) show ?thesis by (auto simp: project_def)
qed

lemma estimatedTree_entries:
  assumes "(k, n) \<in> set (estimatedTree fd valves ps)"
  shows "\<exists>v \<in> set valves. category v = ''main'' \<and> k = valveId v \<and> valve n = v \<and>
           children n = childrenOf valves v \<and> servedHouseholds n = 0 \<and> directFlow n = None"
proof -
  let ?h = "\<lambda>n. (valve n, children n, servedHouseholds n, directFlow n)"
  let ?mainVs = "filter (\<lambda>v. category v = ''main'') valves"
  let ?subVs = "filter (\<lambda>v. category v = ''sub'') valves"
  have "project ?h (estimatedTree fd valves ps) = project ?h (buildValveTree ?mainVs ?subVs)"
    by (rule estimatedTree_project) simp_all
  from project_entry [OF this assms] obtain n0 where
    n0: "(k, n0) \<in> set (buildValveTree ?mainVs ?subVs)" "?h n0 = ?h n"
    by blast
  from buildValveTree_nodes [OF n0(1)] obtain v where
    "v \<in> set ?mainVs" "k = valveId v" "n0 = newTreeNode ?subVs v"
    by blast
  with n0(2) show ?thesis by (auto simp: newTreeNode_def childrenOf_def)
qed

lemma distributeAll_project:
  assumes "distributeAll keys (tree, acc) = Inr (tree', acc')"
    and "\<And>n x. h (n\<lparr>totalFlow := x\<rparr>) = h n"
    and "\<And>n a b. h (n\<lparr>servedHouseholds := a, directFlow := b\<rparr>) = h n"
  shows "project h tree' = project h tree"
  using assms(1)
proof (induction keys arbitrary: tree acc)
  case Nil
  then show ?case by simp
next
  case (Cons key keys)
  from distributeNode_returns obtain t1 a1 where s1: "distributeNode key (tree, acc) = Inr (t1, a1)"
    by blast
  with Cons.prems have s2: "distributeAll keys (t1, a1) = Inr (tree', acc')" by simp
  from distributeNode_project [OF s1, of h] assms(2,3) have "project h t1 = project h tree"
    by simp
  with Cons.IH [OF s2] show ?case by simp
qed

lemma distributed_entries:
  assumes "distributeAll keys (estimatedTree fd valves ps, acc) = Inr (tree3, acc')"
    and "(k, n) \<in> set tree3"
  shows "\<exists>v \<in> set valves. category v = ''main'' \<and> k = valveId v \<and> valve n = v \<and>
           children n = childrenOf valves v"
proof -
  let ?h = "\<lambda>n. (valve n, children n)"
  have "project ?h tree3 = project ?h (estimatedTree fd valves ps)"
    by (rule distributeAll_project [OF assms(1)]) simp_all
  from project_entry [OF this assms(2)] obtain n0 where
    "(k, n0) \<in> set (estimatedTree fd valves ps)" "?h n0 = ?h n"
    by blast
  with estimatedTree_entries [of k n0 fd valves ps] show ?thesis by auto
qed

text \<open>
  The distribution writes the direct flow and the served households of an entry only
  where the entry's valve is open and its open households are positive; a write to a
  child's entry changes its \<^verbatim>\<open>totalFlow\<close> only.
\<close>

lemma giveToChildren_entries:
  "(k, n) \<in> set (foldl (giveToChild f) t cs) \<Longrightarrow>
     \<exists>n0 x. (k, n0) \<in> set t \<and> n = n0\<lparr>totalFlow := x\<rparr>"
proof (induction cs arbitrary: t)
  case Nil
  then have "(k, n) \<in> set t \<and> n = n\<lparr>totalFlow := totalFlow n\<rparr>" by simp
  then show ?case by blast
next
  case (Cons c cs)
  from Cons.IH [of "giveToChild f t c"] Cons.prems obtain n1 x where
    n1: "(k, n1) \<in> set (giveToChild f t c)" "n = n1\<lparr>totalFlow := x\<rparr>"
    by auto
  show ?case
  proof (cases "map_of t (valveId c)")
    case None
    with n1 show ?thesis by (auto simp: giveToChild_def)
  next
    case (Some cn)
    with n1(1) have "(k, n1) \<in> set (map_set (valveId c)
        (cn\<lparr>totalFlow := of_int (households c) * f\<rparr>) t)"
      by (simp add: giveToChild_def)
    from vals_map_set [OF this]
    have "(k, n1) = (valveId c, cn\<lparr>totalFlow := of_int (households c) * f\<rparr>) \<or> (k, n1) \<in> set t" .
    then show ?thesis
    proof
      assume "(k, n1) = (valveId c, cn\<lparr>totalFlow := of_int (households c) * f\<rparr>)"
      with n1(2) map_of_SomeD [OF Some] have "(k, cn) \<in> set t \<and> n = cn\<lparr>totalFlow := x\<rparr>"
        by simp
      then show ?thesis by blast
    next
      assume "(k, n1) \<in> set t"
      with n1(2) show ?thesis by blast
    qed
  qed
qed

lemma unsplit_flow [simp]: "unsplit (n\<lparr>totalFlow := x\<rparr>) = unsplit n"
  by (simp add: unsplit_def openHouseholds_def)

lemma distributeNode_unsplit:
  assumes "distributeNode key (tree, acc) = Inr (tree', acc')"
    and "\<forall>kn \<in> set tree. unsplit (snd kn)"
  shows "\<forall>kn \<in> set tree'. unsplit (snd kn)"
proof (cases "map_of tree key")
  case None
  with assms show ?thesis by (simp add: distributeNode_absent)
next
  case (Some node)
  show ?thesis
  proof (cases "isOpen (valve node) \<and> 0 < openHouseholds node")
    case False
    from distributeNode_idle [OF Some this, of acc] assms show ?thesis by simp
  next
    case True
    let ?f = "totalFlow node / of_int (openHouseholds node)"
    let ?n1 = "node\<lparr>servedHouseholds := min (openHouseholds node) \<lfloor>totalFlow node / 10\<rfloor>,
                    directFlow := Some (of_int (directHouseholds node) * ?f)\<rparr>"
    from True have new: "unsplit ?n1" by (simp add: unsplit_def openHouseholds_def)
    from True distributeNode_open [OF Some, of acc] assms(1)
    have t': "tree' = foldl (giveToChild ?f) (map_set key ?n1 tree) (filter isOpen (children node))"
      by auto
    show ?thesis
    proof
      fix kn assume "kn \<in> set tree'"
      then have "(fst kn, snd kn) \<in> set tree'" by simp
      with t' giveToChildren_entries [of "fst kn" "snd kn" ?f "map_set key ?n1 tree"]
      obtain n0 x where n0: "(fst kn, n0) \<in> set (map_set key ?n1 tree)" "snd kn = n0\<lparr>totalFlow := x\<rparr>"
        by blast
      from vals_map_set [OF n0(1)] new assms(2) have "unsplit n0" by auto
      with n0(2) show "unsplit (snd kn)" by simp
    qed
  qed
qed

lemma distributeAll_unsplit:
  assumes "distributeAll keys (tree, acc) = Inr (tree', acc')"
    and "\<forall>kn \<in> set tree. unsplit (snd kn)"
  shows "\<forall>kn \<in> set tree'. unsplit (snd kn)"
  using assms
proof (induction keys arbitrary: tree acc)
  case Nil
  then show ?case by simp
next
  case (Cons key keys)
  from distributeNode_returns obtain t1 a1 where s1: "distributeNode key (tree, acc) = Inr (t1, a1)"
    by blast
  with Cons.prems(1) have s2: "distributeAll keys (t1, a1) = Inr (tree', acc')" by simp
  from Cons.IH [OF s2 distributeNode_unsplit [OF s1 Cons.prems(2)]] show ?case .
qed

lemma overview_unsplit:
  assumes "calculateSupplyOverview tanks valves pipelines = Inr r" "n \<in> set (valveTree r)"
  shows "unsplit n"
proof (rule calculateSupplyOverview_Inr [OF assms(1)])
  fix flowData tree3 acc
  assume run: "distributeAll (map fst (estimatedTree flowData valves pipelines))
       (estimatedTree flowData valves pipelines, zeroTally) = Inr (tree3, acc)"
    and tr: "valveTree r = map snd tree3"
  have "\<forall>kn \<in> set (estimatedTree flowData valves pipelines). unsplit (snd kn)"
  proof
    fix kn assume "kn \<in> set (estimatedTree flowData valves pipelines)"
    then have "(fst kn, snd kn) \<in> set (estimatedTree flowData valves pipelines)" by simp
    from estimatedTree_entries [OF this] show "unsplit (snd kn)" by (auto simp: unsplit_def)
  qed
  from distributeAll_unsplit [OF run this] have all: "\<forall>kn \<in> set tree3. unsplit (snd kn)" .
  from assms(2) tr obtain kn where "kn \<in> set tree3" "n = snd kn" by auto
  with all show ?thesis by blast
qed


section \<open>Ratios\<close>

lemma countSegments_failure: "countSegments ps n \<noteq> Inl DivisionByZero"
  by (induction ps arbitrary: n) (simp_all split: nodes_text.splits)

lemma calculateFlowPaths_failure: "calculateFlowPaths tanks valves pipelines \<noteq> Inl DivisionByZero"
proof -
  obtain st where "flowTraversal (filter isActive tanks) valves pipelines = Inr st"
    using flowTraversal_returns by blast
  then show ?thesis
    using countSegments_failure [of pipelines 0]
    by (auto simp: calculateFlowPaths_def Let_def split: sum.splits)
qed

lemma coverageOf_returns: "\<exists>c. coverageOf t s = Inr c \<and> (t = 0 \<longrightarrow> c = 0)"
  by (simp add: coverageOf_def js_div_def)

lemma avgSupplyOf_returns: "\<exists>a. avgSupplyOf f s = Inr a \<and> (s = 0 \<longrightarrow> a = 0)"
  by (simp add: avgSupplyOf_def js_div_def)

lemma addToRegion_failure: "addToRegion tree regs v = Inl e \<Longrightarrow> e = TypeError"
  by (auto simp: addToRegion_def Let_def split: option.splits if_splits)

lemma addRegions_failure: "addRegions tree regs vs = Inl e \<Longrightarrow> e = TypeError"
proof (induction vs arbitrary: regs)
  case Nil
  then show ?case by simp
next
  case (Cons v vs)
  then show ?case
    by (cases "addToRegion tree regs v") (auto dest: addToRegion_failure)
qed

lemma calculateSupplyOverview_failure:
  assumes "calculateSupplyOverview tanks valves pipelines = Inl e"
  shows "calculateFlowPaths tanks valves pipelines = Inl e \<or> e = TypeError"
proof (cases "calculateFlowPaths tanks valves pipelines")
  case (Inl e')
  with assms show ?thesis by (simp add: calculateSupplyOverview_def)
next
  case (Inr fd)
  let ?t = "estimatedTree fd valves pipelines"
  obtain tree3 acc where run: "distributeAll (map fst ?t) (?t, zeroTally) = Inr (tree3, acc)"
    using distributeAll_returns by blast
  obtain c a where "coverageOf (sumHouseholds acc) (sumServed acc) = Inr c"
    "avgSupplyOf (sumFlow acc) (sumServed acc) = Inr a"
    using coverageOf_returns avgSupplyOf_returns by blast
  with Inr run assms have "addRegions tree3 [] valves = Inl e"
    unfolding estimatedTree_def zeroTally_def
    by (simp add: calculateSupplyOverview_def Let_def split: sum.splits)
  from addRegions_failure [OF this] show ?thesis by simp
qed

text \<open>
  C8, amended: the supply overview never raises a division by zero, for any input. With
  no households the coverage is 0, and with no served household the average supply per
  household is 0. The flow per household is computed only when the open households of an
  entry are positive: an entry of the returned tree whose open households are 0 has a
  direct flow that is \<^verbatim>\<open>undefined\<close>, not 0, and no served households, and the callback
  leaves the tree as it is and adds nothing to the served households.
\<close>

theorem C8_ratios_guarded:
  "calculateSupplyOverview tanks valves pipelines \<noteq> Inl DivisionByZero \<and>
   (\<forall>r. calculateSupplyOverview tanks valves pipelines = Inr r \<longrightarrow>
      (stats_totalHouseholds (stats r) = 0 \<longrightarrow> coverage (stats r) = 0) \<and>
      (stats_servedHouseholds (stats r) = 0 \<longrightarrow> avgSupplyPerHousehold (stats r) = 0) \<and>
      (\<forall>n \<in> set (valveTree r). openHouseholds n = 0 \<longrightarrow>
         directFlow n = None \<and> servedHouseholds n = 0)) \<and>
   (\<forall>node. map_of tree key = Some node \<longrightarrow> openHouseholds node = 0 \<longrightarrow>
      (\<exists>acc'. distributeNode key (tree, acc) = Inr (tree, acc') \<and> sumServed acc' = sumServed acc))"
proof -
  have one: "calculateSupplyOverview tanks valves pipelines \<noteq> Inl DivisionByZero"
    using calculateSupplyOverview_failure [of tanks valves pipelines DivisionByZero]
    by (auto simp: calculateFlowPaths_failure)
  have two: "(stats_totalHouseholds (stats r) = 0 \<longrightarrow> coverage (stats r) = 0) \<and>
      (stats_servedHouseholds (stats r) = 0 \<longrightarrow> avgSupplyPerHousehold (stats r) = 0)"
    if r: "calculateSupplyOverview tanks valves pipelines = Inr r" for r
  proof (rule calculateSupplyOverview_Inr [OF r])
    fix acc cov avg
    assume c: "coverageOf (sumHouseholds acc) (sumServed acc) = Inr cov"
      and a: "avgSupplyOf (sumFlow acc) (sumServed acc) = Inr avg"
      and st: "stats r =
       \<lparr>stats_totalHouseholds = sumHouseholds acc, stats_servedHouseholds = sumServed acc,
        coverage = toFixedNum 1 cov, stats_totalFlow = toFixedNum 0 (sumFlow acc),
        avgSupplyPerHousehold = toFixedNum 1 avg,
        mainValves = length (filter (\<lambda>v. category v = ''main'') valves),
        subValves = length (filter (\<lambda>v. category v = ''sub'') valves),
        activeTanks = length (filter isActive tanks)\<rparr>"
    from c coverageOf_returns [of "sumHouseholds acc" "sumServed acc"]
    have "sumHouseholds acc = 0 \<longrightarrow> cov = 0" by auto
    moreover from a avgSupplyOf_returns [of "sumFlow acc" "sumServed acc"]
    have "sumServed acc = 0 \<longrightarrow> avg = 0" by auto
    ultimately show ?thesis
      by (auto simp: st toFixedNum_def)
  qed
  have unset: "directFlow n = None \<and> servedHouseholds n = 0"
    if "calculateSupplyOverview tanks valves pipelines = Inr r" "n \<in> set (valveTree r)"
      "openHouseholds n = 0" for r n
    using overview_unsplit [OF that(1,2)] that(3) by (simp add: unsplit_def)
  have three: "\<exists>acc'. distributeNode key (tree, acc) = Inr (tree, acc') \<and> sumServed acc' = sumServed acc"
    if "map_of tree key = Some node" "openHouseholds node = 0" for node
    using that distributeNode_idle [of tree key node acc] by simp
  from one two unset three show ?thesis by blast
qed

section \<open>Coverage\<close>

lemma households_filter:
  assumes "list_all (\<lambda>c. 0 \<le> households c) cs"
  shows "0 \<le> sum_list (map households (filter P cs)) \<and>
         sum_list (map households (filter P cs)) \<le> sum_list (map households cs)"
  using assms by (induction cs) auto

lemma soundNode_open: "soundNode n \<Longrightarrow> 0 \<le> openHouseholds n"
  using households_filter [of "children n" isOpen]
  by (simp add: soundNode_def openHouseholds_def)

lemma soundNode_served [simp]:
  "soundNode (n\<lparr>servedHouseholds := a, directFlow := b\<rparr>) = soundNode n"
  by (simp add: soundNode_def openHouseholds_def)

lemma soundNode_flow: "soundNode n \<Longrightarrow> 0 \<le> x \<Longrightarrow> soundNode (n\<lparr>totalFlow := x\<rparr>)"
  by (simp add: soundNode_def openHouseholds_def)

lemma distributeNode_sound:
  assumes "distributeNode key (tree, acc) = Inr (tree', acc')" "soundTree tree"
    "0 \<le> sumServed acc" "sumServed acc \<le> sumHouseholds acc"
  shows "soundTree tree' \<and> 0 \<le> sumServed acc' \<and> sumServed acc' \<le> sumHouseholds acc'"
proof (cases "map_of tree key")
  case None
  with assms show ?thesis by (simp add: distributeNode_absent)
next
  case (Some node)
  from assms(2) Some have sn: "soundNode node" by (simp add: soundTree_def)
  then have hh: "0 \<le> openHouseholds node" "openHouseholds node \<le> totalHouseholds node"
    by (simp_all add: soundNode_open) (simp add: soundNode_def)
  show ?thesis
  proof (cases "isOpen (valve node) \<and> 0 < openHouseholds node")
    case False
    from distributeNode_idle [OF Some this, of acc] assms hh show ?thesis by auto
  next
    case True
    let ?f = "totalFlow node / of_int (openHouseholds node)"
    let ?s = "min (openHouseholds node) \<lfloor>totalFlow node / 10\<rfloor>"
    let ?n1 = "node\<lparr>servedHouseholds := ?s, directFlow := Some (of_int (directHouseholds node) * ?f)\<rparr>"
    let ?cs = "filter isOpen (children node)"
    from sn have flow: "0 \<le> totalFlow node" by (simp add: soundNode_def)
    with True have f0: "0 \<le> ?f" by simp
    from flow True have s0: "0 \<le> ?s" by simp
    have s1: "?s \<le> totalHouseholds node" using hh by simp
    from distributeNode_open [OF Some, of acc] True assms(1) obtain x where
      t': "tree' = foldl (giveToChild ?f) (map_set key ?n1 tree) ?cs"
      and a': "sumHouseholds acc' = sumHouseholds acc + totalHouseholds node"
        "sumServed acc' = sumServed acc + ?s"
      by auto
    have child: "0 \<le> of_int (households c) * ?f" if "c \<in> set ?cs" for c
    proof -
      from sn that have "0 \<le> households c"
        by (auto simp: soundNode_def list_all_iff)
      then have "0 \<le> (of_int (households c) :: real)" by simp
      from mult_nonneg_nonneg [OF this f0] show ?thesis .
    qed
    have "soundNode n'" if look: "map_of tree' k = Some n'" for k n'
    proof (cases "map_of (map_set key ?n1 tree) k")
      case None
      from giveToChildren_None [OF this, of ?f ?cs] look show ?thesis by (simp add: t')
    next
      case m: (Some m)
      have sm: "soundNode m"
      proof (cases "k = key")
        case True
        with m have "m = ?n1" by (simp add: map_of_map_set)
        with sn show ?thesis by simp
      next
        case False
        with m have "map_of tree k = Some m" by (simp add: map_of_map_set)
        with assms(2) show ?thesis by (simp add: soundTree_def)
      qed
      from giveToChildren_Some [OF m, of ?f ?cs] look obtain x where
        n': "n' = m\<lparr>totalFlow := x\<rparr>"
        and x: "x = totalFlow m \<or> x \<in> (\<lambda>c. of_int (households c) * ?f) ` set ?cs"
        by (auto simp: t')
      from x child sm have "0 \<le> x" by (auto simp: soundNode_def)
      with soundNode_flow [OF sm] show ?thesis by (simp add: n')
    qed
    then have "soundTree tree'" by (simp add: soundTree_def)
    with a' s0 s1 assms(3,4) show ?thesis by simp
  qed
qed

lemma distributeAll_sound:
  assumes "distributeAll keys (tree, acc) = Inr (tree', acc')" "soundTree tree"
    "0 \<le> sumServed acc" "sumServed acc \<le> sumHouseholds acc"
  shows "0 \<le> sumServed acc' \<and> sumServed acc' \<le> sumHouseholds acc'"
  using assms
proof (induction keys arbitrary: tree acc)
  case Nil
  then show ?case by simp
next
  case (Cons key keys)
  from distributeNode_returns obtain t1 a1 where s1: "distributeNode key (tree, acc) = Inr (t1, a1)"
    by blast
  with Cons.prems(1) have s2: "distributeAll keys (t1, a1) = Inr (tree', acc')" by simp
  from distributeNode_sound [OF s1 Cons.prems(2-4)] Cons.IH [OF s2] show ?case by blast
qed

lemma setDirectHouseholds_adjusts:
  assumes "\<forall>k n. map_of t k = Some n \<longrightarrow>
             (\<exists>v \<in> set mainVs. k = valveId v \<and>
                (n = adjustedNode subVs v \<or> (n = newTreeNode subVs v \<and> k \<notin> S)))"
  shows "\<forall>k n. map_of (foldl setDirectHouseholds t vs) k = Some n \<longrightarrow>
             (\<exists>v \<in> set mainVs. k = valveId v \<and>
                (n = adjustedNode subVs v \<or> (n = newTreeNode subVs v \<and> k \<notin> S \<union> valveId ` set vs)))"
  using assms
proof (induction vs arbitrary: t S)
  case Nil
  then show ?case by simp
next
  case (Cons mv vs)
  let ?t1 = "setDirectHouseholds t mv"
  have step: "\<forall>k n. map_of ?t1 k = Some n \<longrightarrow>
             (\<exists>v \<in> set mainVs. k = valveId v \<and>
                (n = adjustedNode subVs v \<or> (n = newTreeNode subVs v \<and> k \<notin> insert (valveId mv) S)))"
  proof (intro allI impI)
    fix k n assume look: "map_of ?t1 k = Some n"
    show "\<exists>v \<in> set mainVs. k = valveId v \<and>
            (n = adjustedNode subVs v \<or> (n = newTreeNode subVs v \<and> k \<notin> insert (valveId mv) S))"
    proof (cases "map_of t (valveId mv)")
      case None
      with look have old: "map_of t k = Some n" and "k \<noteq> valveId mv"
        by (auto simp: setDirectHouseholds_def)
      with Cons.prems show ?thesis by auto
    next
      case (Some node)
      from Cons.prems Some obtain v where v: "v \<in> set mainVs" "valveId mv = valveId v"
        and node: "node = adjustedNode subVs v \<or> node = newTreeNode subVs v"
        by blast
      let ?node' = "node\<lparr>directHouseholds :=
          max 0 (totalHouseholds node - sum_list (map households (children node)))\<rparr>"
      from node have adj: "?node' = adjustedNode subVs v"
        by (auto simp: adjustedNode_def newTreeNode_def)
      have t1: "map_of ?t1 = (map_of t)(valveId mv \<mapsto> ?node')"
        using Some by (simp add: setDirectHouseholds_def Let_def map_of_map_set)
      show ?thesis
      proof (cases "k = valveId mv")
        case True
        with look t1 adj have "n = adjustedNode subVs v" by simp
        with v True show ?thesis by auto
      next
        case False
        with look t1 have "map_of t k = Some n" by simp
        with Cons.prems False show ?thesis by auto
      qed
    qed
  qed
  from Cons.IH [OF step] show ?case by simp
qed

lemma estimatedTree_nodes:
  assumes "map_of (estimatedTree fd valves ps) k = Some n"
  shows "\<exists>v \<in> set valves. category v = ''main'' \<and>
           n = estimateFlow fd ps (adjustedNode (filter (\<lambda>v. category v = ''sub'') valves) v)"
proof -
  let ?mainVs = "filter (\<lambda>v. category v = ''main'') valves"
  let ?subVs = "filter (\<lambda>v. category v = ''sub'') valves"
  let ?t0 = "buildValveTree ?mainVs ?subVs"
  let ?t1 = "foldl setDirectHouseholds ?t0 ?mainVs"
  have "\<forall>k n. map_of ?t0 k = Some n \<longrightarrow>
             (\<exists>v \<in> set ?mainVs. k = valveId v \<and>
                (n = adjustedNode ?subVs v \<or> (n = newTreeNode ?subVs v \<and> k \<notin> {})))"
    using buildValveTree_nodes [of _ _ ?mainVs ?subVs] by (auto dest!: map_of_SomeD)
  from setDirectHouseholds_adjusts [OF this, of ?mainVs]
  have adj: "\<exists>v \<in> set ?mainVs. n1 = adjustedNode ?subVs v" if "map_of ?t1 k = Some n1" for k n1
    using that by fastforce
  have "map_of (estimatedTree fd valves ps) k = map_option (estimateFlow fd ps) (map_of ?t1 k)"
    unfolding estimatedTree_def Let_def by (simp add: project_def [symmetric] map_of_project)
  with assms obtain n1 where "map_of ?t1 k = Some n1" "n = estimateFlow fd ps n1"
    by auto
  with adj [of k n1] show ?thesis by auto
qed

lemma estimatedTree_sound:
  assumes "\<forall>v \<in> set valves. 0 \<le> households v"
    and "\<forall>p \<in> set pipelines. 0 \<le> capacity p"
    and "\<forall>v \<in> set valves. category v = ''main'' \<longrightarrow>
           sum_list (map households (childrenOf valves v)) \<le> households v"
  shows "soundTree (estimatedTree fd valves pipelines)"
  unfolding soundTree_def
proof (intro allI impI)
  fix k n assume "map_of (estimatedTree fd valves pipelines) k = Some n"
  from estimatedTree_nodes [OF this] obtain v where v: "v \<in> set valves" "category v = ''main''"
    and n: "n = estimateFlow fd pipelines (adjustedNode (filter (\<lambda>v. category v = ''sub'') valves) v)"
    by blast
  let ?cs = "childrenOf valves v"
  have kids: "list_all (\<lambda>c. 0 \<le> households c) ?cs"
    using assms(1) by (auto simp: childrenOf_def list_all_iff)
  from assms(3) v have le: "sum_list (map households ?cs) \<le> households v" by blast
  have flow: "0 \<le> totalFlow n"
    unfolding n estimateFlow_def Let_def
    using assms(2) by (auto simp: findConnectedPipelines_def intro!: sum_list_nonneg)
  have rest: "children n = ?cs" "totalHouseholds n = households v"
    "directHouseholds n = max 0 (households v - sum_list (map households ?cs))"
    unfolding n by (simp_all add: estimateFlow_def Let_def adjustedNode_def newTreeNode_def childrenOf_def)
  from households_filter [OF kids, of isOpen] le
  have "openHouseholds n \<le> totalHouseholds n"
    by (simp add: openHouseholds_def rest)
  with flow kids show "soundNode n"
    by (simp add: soundNode_def rest)
qed

lemma toFixedNum_percent:
  assumes "0 \<le> x" "x \<le> 100"
  shows "0 \<le> toFixedNum 1 x \<and> toFixedNum 1 x \<le> 100"
proof -
  have "\<lfloor>x * 10 + 1 / 2\<rfloor> \<le> \<lfloor>(2001 / 2 :: real)\<rfloor>"
    using assms(2) by (intro floor_mono) simp
  then have "\<lfloor>x * 10 + 1 / 2\<rfloor> \<le> 1000" by simp
  then have "(of_int \<lfloor>x * 10 + 1 / 2\<rfloor> :: real) \<le> 1000"
    by linarith
  moreover have "0 \<le> \<lfloor>x * 10 + 1 / 2\<rfloor>" using assms(1) by simp
  ultimately show ?thesis using assms(1) by (simp add: toFixedNum_def)
qed

text \<open>
  C3, amended: for every input in which no household count and no pipeline capacity is
  negative, and in which the households of the children of every main valve sum to at
  most the households of that valve, the coverage of the supply overview satisfies
  \<open>0 \<le> coverage \<le> 100\<close> (zero households and zero flow included).
\<close>

theorem C3_coverage_bound:
  assumes "calculateSupplyOverview tanks valves pipelines = Inr r"
    and "\<forall>v \<in> set valves. 0 \<le> households v"
    and "\<forall>p \<in> set pipelines. 0 \<le> capacity p"
    and "\<forall>v \<in> set valves. category v = ''main'' \<longrightarrow>
           sum_list (map households (childrenOf valves v)) \<le> households v"
  shows "0 \<le> coverage (stats r) \<and> coverage (stats r) \<le> 100"
proof (rule calculateSupplyOverview_Inr [OF assms(1)])
  fix fd tree3 acc cov avg
  assume run: "distributeAll (map fst (estimatedTree fd valves pipelines))
       (estimatedTree fd valves pipelines, zeroTally) = Inr (tree3, acc)"
    and c: "coverageOf (sumHouseholds acc) (sumServed acc) = Inr cov"
    and st: "stats r =
       \<lparr>stats_totalHouseholds = sumHouseholds acc, stats_servedHouseholds = sumServed acc,
        coverage = toFixedNum 1 cov, stats_totalFlow = toFixedNum 0 (sumFlow acc),
        avgSupplyPerHousehold = toFixedNum 1 avg,
        mainValves = length (filter (\<lambda>v. category v = ''main'') valves),
        subValves = length (filter (\<lambda>v. category v = ''sub'') valves),
        activeTanks = length (filter isActive tanks)\<rparr>"
  from distributeAll_sound [OF run estimatedTree_sound [OF assms(2-4)]]
  have b: "0 \<le> sumServed acc" "sumServed acc \<le> sumHouseholds acc"
    by (simp_all add: zeroTally_def)
  have "0 \<le> cov \<and> cov \<le> 100"
  proof (cases "0 < sumHouseholds acc")
    case True
    define q :: real where "q = of_int (sumServed acc) / of_int (sumHouseholds acc)"
    from True c have cov: "cov = q * 100"
      by (simp add: coverageOf_def js_div_def q_def)
    from b True have "0 \<le> q" "q \<le> 1"
      by (simp_all add: q_def)
    then show ?thesis by (simp add: cov)
  next
    case False
    with c show ?thesis by (simp add: coverageOf_def)
  qed
  with toFixedNum_percent [of cov] show ?thesis by (simp add: st)
qed

section \<open>Supply examples\<close>

lemmas supply_defs =
  calculateSupplyOverview_def buildValveTree_def newTreeNode_def setDirectHouseholds_def
  estimateFlow_def findConnectedPipelines_def distanceToSegment_def distributeNode_def
  giveToChild_def addNodeFlow_def js_div_def coverageOf_def avgSupplyOf_def toFixedNum_def
  addToRegion_def regionKey_def inheritedNames_def objectValues_def arrayIndex_def digitValue_def

lemmas example_defs =
  activeTank_def mainValve_def subValve_def danglingSub_def smallMain_def bigSub_def
  quietValve_def widePipe_def

lemma scenarioC_run:
  "calculateSupplyOverview [activeTank] [mainValve, subValve] [widePipe] = Inr scenarioC"
  by (simp add: supply_defs flow_defs example_defs geo scenarioC_def)

lemma overCovered_run:
  "calculateSupplyOverview [activeTank] [smallMain, bigSub] [widePipe] = Inr overCovered"
  by (simp add: supply_defs flow_defs example_defs geo overCovered_def)



lemma quiet_run:
  "calculateSupplyOverview [] [quietValve] [] = Inr quietOverview"
  by (simp add: supply_defs flow_defs example_defs quietOverview_def)

text \<open>
  C3, as the specification states it, fails: a main valve of 10 households with an open
  sub valve of 40 households and a flow of 500 serves \<open>min 40 \<lfloor>500 / 10\<rfloor> = 40\<close> households
  out of 10, a coverage of 400 percent.
\<close>

theorem C3_counterexample:
  "calculateSupplyOverview [activeTank] [smallMain, bigSub] [widePipe] = Inr overCovered \<and>
   coverage (stats overCovered) = 400 \<and> \<not> coverage (stats overCovered) \<le> 100"
  using overCovered_run by (simp add: overCovered_def)

theorem C3_coverage_bound_witness:
  "calculateSupplyOverview [activeTank] [mainValve, subValve] [widePipe] = Inr scenarioC \<and>
   0 \<le> coverage (stats scenarioC) \<and> coverage (stats scenarioC) \<le> 100"
proof -
  have h1: "\<forall>v \<in> set [mainValve, subValve]. 0 \<le> households v"
    by (simp add: example_defs)
  have h2: "\<forall>p \<in> set [widePipe]. 0 \<le> capacity p"
    by (simp add: example_defs)
  have h3: "\<forall>v \<in> set [mainValve, subValve]. category v = ''main'' \<longrightarrow>
      sum_list (map households (childrenOf [mainValve, subValve] v)) \<le> households v"
    by (simp add: example_defs childrenOf_def)
  from C3_coverage_bound [OF scenarioC_run h1 h2 h3] scenarioC_run show ?thesis by simp
qed


text \<open>
  C8, as stated, fails for the flow per household: for an open valve with 0 open
  households the result is not 0. Nothing is computed, and the direct flow of its entry
  is \<^verbatim>\<open>undefined\<close>.
\<close>

theorem C8_counterexample:
  "calculateSupplyOverview [] [quietValve] [] = Inr quietOverview \<and>
   map (\<lambda>n. (isOpen (valve n), openHouseholds n, directFlow n)) (valveTree quietOverview) =
     [(True, 0, None)]"
  using quiet_run by (simp add: quietOverview_def quietValve_def openHouseholds_def)

theorem C8_ratios_guarded_witness:
  "calculateSupplyOverview [] [quietValve] [] = Inr quietOverview \<and>
   stats_totalHouseholds (stats quietOverview) = 0 \<and> coverage (stats quietOverview) = 0 \<and>
   stats_servedHouseholds (stats quietOverview) = 0 \<and>
   avgSupplyPerHousehold (stats quietOverview) = 0 \<and>
   map directFlow (valveTree quietOverview) = [None] \<and>
   (\<exists>acc'. distributeNode ''M3'' ([(''M3'', newTreeNode [] quietValve)], zeroTally) =
            Inr ([(''M3'', newTreeNode [] quietValve)], acc') \<and> sumServed acc' = sumServed zeroTally)"
proof -
  have z: "stats_totalHouseholds (stats quietOverview) = 0"
    "stats_servedHouseholds (stats quietOverview) = 0"
    "\<forall>n \<in> set (valveTree quietOverview). openHouseholds n = 0"
    by (simp_all add: quietOverview_def openHouseholds_def)
  have t: "map_of [(''M3'', newTreeNode [] quietValve)] ''M3'' = Some (newTreeNode [] quietValve)"
    "openHouseholds (newTreeNode [] quietValve) = 0"
    by (simp_all add: openHouseholds_def newTreeNode_def quietValve_def)
  from C8_ratios_guarded [of "[]" "[quietValve]" "[]" "[(''M3'', newTreeNode [] quietValve)]" "''M3''" zeroTally]
    quiet_run z t
  have "coverage (stats quietOverview) = 0 \<and> avgSupplyPerHousehold (stats quietOverview) = 0 \<and>
    (\<forall>n \<in> set (valveTree quietOverview). directFlow n = None) \<and>
    (\<exists>acc'. distributeNode ''M3'' ([(''M3'', newTreeNode [] quietValve)], zeroTally) =
            Inr ([(''M3'', newTreeNode [] quietValve)], acc') \<and> sumServed acc' = sumServed zeroTally)"
    by auto
  moreover have "map directFlow (valveTree quietOverview) = [None]"
    by (simp add: quietOverview_def)
  ultimately show ?thesis using quiet_run z by simp
qed

text \<open>
  A mandal that is the name of an inherited property gets no region; with a tree entry
  for the valve, line 688 throws. Keys that are array indices come first in the result.
\<close>

lemma constructorSub_run:
  "calculateSupplyOverview [] [constructorSub] [] =
     Inr \<lparr>stats =
            \<lparr>stats_totalHouseholds = 0, stats_servedHouseholds = 0, coverage = 0,
             stats_totalFlow = 0, avgSupplyPerHousehold = 0, mainValves = 0, subValves = 1,
             activeTanks = 0\<rparr>,
          regions = [], valveTree = []\<rparr>"
  by (simp add: supply_defs flow_defs constructorSub_def)

lemma constructorMain_run:
  "calculateSupplyOverview [] [constructorMain] [] = Inl TypeError"
  by (simp add: supply_defs flow_defs constructorMain_def)

lemma objectValues_order:
  "objectValues [(''North'', a), (''10'', b), (''007'', c), (''9'', d)] = [d, b, a, c]"
  by (simp add: objectValues_def arrayIndex_def digitValue_def)

section \<open>Self-loop edges\<close>

lemma findNearbyNode_minted:
  assumes "findNearbyNode m cd q = None" "haversineDistance q p < cd"
  shows "findNearbyNode (map_set k \<lparr>position = p, edges = es\<rparr> m) cd q = Some k"
  using assms(1)
proof (induction m)
  case Nil
  with assms(2) show ?case by simp
next
  case (Cons kv m)
  obtain k' nd where kv: "kv = (k', nd)" by (cases kv)
  from Cons.prems have far: "\<not> haversineDistance q (position nd) < cd"
    and rest: "findNearbyNode m cd q = None"
    by (auto simp: kv split: if_splits)
  show ?case
  proof (cases "k = k'")
    case True
    with assms(2) show ?thesis by (simp add: kv)
  next
    case False
    with far Cons.IH [OF rest] show ?thesis by (simp add: kv)
  qed
qed

lemma valveBlocks_point: "\<not> valveBlocks s s d v"
  by (simp add: valveBlocks_def)

lemma findBlockingValve_point: "findBlockingValve s s closedValves d = None"
  by (induction closedValves) (simp_all add: valveBlocks_point)


text \<open>
  C10, as stated, fails: two consecutive waypoints within the connect distance of each
  other need not snap to one node. The second waypoint of the dense pipeline snaps to
  the node of the first; the third is about 33 m from the second but 67 m from that
  node, so it becomes a node of its own, and the edge between them is no self-loop: the
  closed valve on it blocks it.
\<close>

theorem C10_counterexample:
  "haversineDistance \<lparr>lat = 3 / 10000, lng = 0\<rparr> \<lparr>lat = 6 / 10000, lng = 0\<rparr> < CONNECT_DISTANCE \<and>
   gedges (buildPipelineGraph [densePipe] CONNECT_DISTANCE) =
     [\<lparr>from_key = getNodeKey 0 0, to_key = getNodeKey 0 0, pipelineId = 5\<rparr>,
      \<lparr>from_key = getNodeKey 0 0, to_key = getNodeKey (6 / 10000) 0, pipelineId = 5\<rparr>] \<and>
   getNodeKey 0 0 \<noteq> getNodeKey (6 / 10000) 0 \<and>
   calculateFlowPaths [activeTank] [denseValve] [densePipe] =
     Inr \<lparr>fd_segments =
            [\<lparr>seg_pipelineId = 5, seg_start = \<lparr>lat = 0, lng = 0\<rparr>,
              seg_end = \<lparr>lat = 0, lng = 0\<rparr>, seg_sourceTank = ''T1'',
              hasFlow = True, blocked = False\<rparr>],
          fd_blockedSegments =
            [\<lparr>blk_pipelineId = 5, blk_start = \<lparr>lat = 0, lng = 0\<rparr>,
              blk_end = \<lparr>lat = 6 / 10000, lng = 0\<rparr>, blockedBy = ''V4''\<rparr>],
          totalSegments = 2\<rparr>"
proof -
  have "haversineDistance \<lparr>lat = 3 / 10000, lng = 0\<rparr> \<lparr>lat = 6 / 10000, lng = 0\<rparr> < CONNECT_DISTANCE"
    by (simp add: CONNECT_DISTANCE_def geo)
  moreover have "gedges (buildPipelineGraph [densePipe] CONNECT_DISTANCE) =
     [\<lparr>from_key = getNodeKey 0 0, to_key = getNodeKey 0 0, pipelineId = 5\<rparr>,
      \<lparr>from_key = getNodeKey 0 0, to_key = getNodeKey (6 / 10000) 0, pipelineId = 5\<rparr>]"
    by (simp add: flow_defs densePipe_def geo)
  moreover have "getNodeKey 0 0 \<noteq> getNodeKey (6 / 10000) 0"
    by (simp add: getNodeKey_def toFixed6_def)
  moreover have "calculateFlowPaths [activeTank] [denseValve] [densePipe] =
     Inr \<lparr>fd_segments =
            [\<lparr>seg_pipelineId = 5, seg_start = \<lparr>lat = 0, lng = 0\<rparr>,
              seg_end = \<lparr>lat = 0, lng = 0\<rparr>, seg_sourceTank = ''T1'',
              hasFlow = True, blocked = False\<rparr>],
          fd_blockedSegments =
            [\<lparr>blk_pipelineId = 5, blk_start = \<lparr>lat = 0, lng = 0\<rparr>,
              blk_end = \<lparr>lat = 6 / 10000, lng = 0\<rparr>, blockedBy = ''V4''\<rparr>],
          totalSegments = 2\<rparr>"
    by (simp add: flow_defs densePipe_def denseValve_def activeTank_def geo)
  ultimately show ?thesis by blast
qed

text \<open>
  C10, amended: when no node of the graph so far lies within the connect distance of
  either of two consecutive waypoints and the second lies within the connect distance of
  the first, both resolve to the node minted for the first and the builder adds a
  self-loop edge, whose start node equals its end node. The blocking test skips a
  self-loop edge (the squared length of its segment is 0): exploring it never changes
  the blocked set or the blocked list, and when it is reached unclassified it is
  classified flowing and its node is put on the queue.
\<close>

theorem C10_self_loop:
  "(findNearbyNode (gnodes g) connectDistance p = None \<longrightarrow>
    findNearbyNode (gnodes g) connectDistance q = None \<longrightarrow>
    haversineDistance q p < connectDistance \<longrightarrow>
      (\<exists>g'. addWaypoints connectDistance i (Some p # Some q # rest) g =
               addWaypoints connectDistance i (Some q # rest) g' \<and>
            gedges g' = gedges g @
              [\<lparr>from_key = getNodeKey (lat p) (lng p), to_key = getNodeKey (lat p) (lng p),
                pipelineId = i\<rparr>])) \<and>
   (from_key e = to_key e \<longrightarrow>
      (\<forall>queue' st'. exploreEdge gr closedValves src e (queue, st) = Inr (queue', st') \<longrightarrow>
         blockedEdges st' = blockedEdges st \<and> blockedSegments st' = blockedSegments st)) \<and>
   (from_key e = to_key e \<longrightarrow>
    (from_key e, to_key e) \<notin> visitedEdges st \<union> blockedEdges st \<longrightarrow>
    map_of (gnodes gr) (from_key e) = Some nd \<longrightarrow>
      (\<exists>st'. exploreEdge gr closedValves src e (queue, st) =
               Inr (queue @ [\<lparr>nodeKey = to_key e, sourceTank = src\<rparr>], st') \<and>
            (from_key e, to_key e) \<in> visitedEdges st' \<and>
            segments st' = segments st @
              [\<lparr>seg_pipelineId = pipelineId e, seg_start = position nd, seg_end = position nd,
                seg_sourceTank = src, hasFlow = True, blocked = False\<rparr>]))"
proof -
  have build: "\<exists>g'. addWaypoints connectDistance i (Some p # Some q # rest) g =
               addWaypoints connectDistance i (Some q # rest) g' \<and>
            gedges g' = gedges g @
              [\<lparr>from_key = getNodeKey (lat p) (lng p), to_key = getNodeKey (lat p) (lng p),
                pipelineId = i\<rparr>]"
    if np: "findNearbyNode (gnodes g) connectDistance p = None"
      and nq: "findNearbyNode (gnodes g) connectDistance q = None"
      and near: "haversineDistance q p < connectDistance"
  proof -
    let ?k = "getNodeKey (lat p) (lng p)"
    let ?g1 = "g\<lparr>gnodes := map_set ?k \<lparr>position = p, edges = []\<rparr> (gnodes g)\<rparr>"
    let ?e = "\<lparr>from_key = ?k, to_key = ?k, pipelineId = i\<rparr>"
    let ?g3 = "?g1\<lparr>gnodes := pushEdge ?k ?e (pushEdge ?k ?e (gnodes ?g1)), gedges := gedges ?g1 @ [?e]\<rparr>"
    have r1: "nodeKeyFor g connectDistance p = (?k, ?g1)"
      using np by (simp add: nodeKeyFor_def Let_def)
    have "findNearbyNode (gnodes ?g1) connectDistance q = Some ?k"
      using findNearbyNode_minted [OF nq near] by simp
    then have r2: "nodeKeyFor ?g1 connectDistance q = (?k, ?g1)"
      by (simp add: nodeKeyFor_def)
    have "addWaypoints connectDistance i (Some p # Some q # rest) g =
        addWaypoints connectDistance i (Some q # rest) ?g3"
      by (subst addWaypoints.simps(3)) (simp add: r1 r2 Let_def del: addWaypoints.simps)
    moreover have "gedges ?g3 = gedges g @ [?e]" by simp
    ultimately show ?thesis by blast
  qed
  have never: "blockedEdges st' = blockedEdges st \<and> blockedSegments st' = blockedSegments st"
    if "from_key e = to_key e" "exploreEdge gr closedValves src e (queue, st) = Inr (queue', st')"
    for queue' st'
    using that
    by (auto simp: exploreEdge_def Let_def findBlockingValve_point split: if_splits option.splits)
  have flows: "\<exists>st'. exploreEdge gr closedValves src e (queue, st) =
               Inr (queue @ [\<lparr>nodeKey = to_key e, sourceTank = src\<rparr>], st') \<and>
            (from_key e, to_key e) \<in> visitedEdges st' \<and>
            segments st' = segments st @
              [\<lparr>seg_pipelineId = pipelineId e, seg_start = position nd, seg_end = position nd,
                seg_sourceTank = src, hasFlow = True, blocked = False\<rparr>]"
    if "from_key e = to_key e" "(from_key e, to_key e) \<notin> visitedEdges st \<union> blockedEdges st"
      "map_of (gnodes gr) (from_key e) = Some nd"
    using that
    by (simp add: exploreEdge_def Let_def findBlockingValve_point)
  from build never flows show ?thesis by blast
qed


lemma denseGraph_origin:
  "map_of (gnodes (buildPipelineGraph [densePipe] CONNECT_DISTANCE)) (getNodeKey 0 0) =
     Some \<lparr>position = \<lparr>lat = 0, lng = 0\<rparr>,
           edges = [selfLoop, selfLoop,
                    \<lparr>from_key = getNodeKey 0 0, to_key = getNodeKey (6 / 10000) 0, pipelineId = 5\<rparr>]\<rparr>"
  by (simp add: flow_defs densePipe_def selfLoop_def geo)

theorem C10_self_loop_witness:
  "(\<exists>g'. addWaypoints CONNECT_DISTANCE 5
            [Some \<lparr>lat = 0, lng = 0\<rparr>, Some \<lparr>lat = 3 / 10000, lng = 0\<rparr>,
             Some \<lparr>lat = 6 / 10000, lng = 0\<rparr>] \<lparr>gnodes = [], gedges = []\<rparr> =
          addWaypoints CONNECT_DISTANCE 5
            [Some \<lparr>lat = 3 / 10000, lng = 0\<rparr>, Some \<lparr>lat = 6 / 10000, lng = 0\<rparr>] g' \<and>
          gedges g' = [selfLoop]) \<and>
   (\<exists>st'. exploreEdge (buildPipelineGraph [densePipe] CONNECT_DISTANCE) [originValve] ''T1'' selfLoop
            ([], initialState) = Inr ([\<lparr>nodeKey = getNodeKey 0 0, sourceTank = ''T1''\<rparr>], st') \<and>
          (getNodeKey 0 0, getNodeKey 0 0) \<in> visitedEdges st' \<and>
          blockedEdges st' = {} \<and> blockedSegments st' = [])"
proof -
  let ?p = "\<lparr>lat = 0, lng = 0\<rparr>" and ?q = "\<lparr>lat = 3 / 10000, lng = 0\<rparr>"
  let ?g = "\<lparr>gnodes = [], gedges = []\<rparr>"
  let ?gr = "buildPipelineGraph [densePipe] CONNECT_DISTANCE"
  let ?nd = "\<lparr>position = \<lparr>lat = 0, lng = 0\<rparr>,
           edges = [selfLoop, selfLoop,
                    \<lparr>from_key = getNodeKey 0 0, to_key = getNodeKey (6 / 10000) 0, pipelineId = 5\<rparr>]\<rparr>"
  have h: "findNearbyNode (gnodes ?g) CONNECT_DISTANCE ?p = None"
    "findNearbyNode (gnodes ?g) CONNECT_DISTANCE ?q = None"
    "haversineDistance ?q ?p < CONNECT_DISTANCE"
    by (simp_all add: CONNECT_DISTANCE_def geo)
  have l: "from_key selfLoop = to_key selfLoop"
    "(from_key selfLoop, to_key selfLoop) \<notin> visitedEdges initialState \<union> blockedEdges initialState"
    by (simp_all add: selfLoop_def initialState_def)
  have n: "map_of (gnodes ?gr) (from_key selfLoop) = Some ?nd"
    using denseGraph_origin by (simp add: selfLoop_def)
  note inst = C10_self_loop [of ?g CONNECT_DISTANCE ?p ?q 5 "[Some \<lparr>lat = 6 / 10000, lng = 0\<rparr>]"
      selfLoop ?gr "[originValve]" "''T1''" "[]" initialState ?nd]
  from inst h have one: "\<exists>g'. addWaypoints CONNECT_DISTANCE 5
            [Some ?p, Some ?q, Some \<lparr>lat = 6 / 10000, lng = 0\<rparr>] ?g =
          addWaypoints CONNECT_DISTANCE 5 [Some ?q, Some \<lparr>lat = 6 / 10000, lng = 0\<rparr>] g' \<and>
          gedges g' = [selfLoop]"
    by (simp add: selfLoop_def)
  from inst l n obtain st' where
    ex: "exploreEdge ?gr [originValve] ''T1'' selfLoop ([], initialState) =
           Inr ([] @ [\<lparr>nodeKey = to_key selfLoop, sourceTank = ''T1''\<rparr>], st')"
    and v: "(from_key selfLoop, to_key selfLoop) \<in> visitedEdges st'"
    by blast
  from inst l(1) ex have "blockedEdges st' = blockedEdges initialState \<and>
      blockedSegments st' = blockedSegments initialState"
    by blast
  with ex v have "exploreEdge ?gr [originValve] ''T1'' selfLoop ([], initialState) =
       Inr ([\<lparr>nodeKey = getNodeKey 0 0, sourceTank = ''T1''\<rparr>], st') \<and>
     (getNodeKey 0 0, getNodeKey 0 0) \<in> visitedEdges st' \<and>
     blockedEdges st' = {} \<and> blockedSegments st' = []"
    by (simp add: selfLoop_def initialState_def)
  with one show ?thesis by blast
qed

section \<open>The even split\<close>

text \<open>
  A child's share is written to the entry found under the child's id (lines 658 to
  663). When no child of an entry has an entry of its own, the callback changes the
  entry it visits and nothing else, and the loop changes every entry on its own.
\<close>

lemma giveToChildren_none:
  "\<forall>c \<in> set cs. map_of t (valveId c) = None \<Longrightarrow> foldl (giveToChild f) t cs = t"
  by (induction cs) (simp_all add: giveToChild_def)

lemma map_set_same: "map_of m k = Some v \<Longrightarrow> map_set k v m = m"
proof (induction m)
  case Nil
  then show ?case by simp
next
  case (Cons kv m)
  obtain k' v' where kv: "kv = (k', v')" by (cases kv)
  from Cons show ?case by (cases "k = k'") (simp_all add: kv)
qed

lemma map_set_middle:
  "k \<notin> fst ` set xs \<Longrightarrow> map_set k v (xs @ (k, v0) # ys) = xs @ (k, v) # ys"
proof (induction xs)
  case Nil
  show ?case by simp
next
  case (Cons kv xs)
  obtain k' v' where kv: "kv = (k', v')" by (cases kv)
  from Cons show ?case by (simp add: kv)
qed

lemma map_of_middle: "k \<notin> fst ` set xs \<Longrightarrow> map_of (xs @ (k, v) # ys) k = Some v"
proof (induction xs)
  case Nil
  show ?case by simp
next
  case (Cons kv xs)
  obtain k' v' where kv: "kv = (k', v')" by (cases kv)
  from Cons show ?case by (simp add: kv)
qed

lemma distributeNode_split:
  assumes "map_of tree key = Some node"
    and "\<forall>c \<in> set (children node). map_of tree (valveId c) = None"
  shows "\<exists>acc'. distributeNode key (tree, acc) = Inr (map_set key (splitDirect node) tree, acc')"
proof (cases "isOpen (valve node) \<and> 0 < openHouseholds node")
  case False
  then have "splitDirect node = node" unfolding splitDirect_def by (rule if_not_P)
  with map_set_same [OF assms(1)] have "map_set key (splitDirect node) tree = tree" by simp
  with distributeNode_idle [OF assms(1) False, of acc] show ?thesis by simp
next
  case True
  let ?f = "totalFlow node / of_int (openHouseholds node)"
  let ?n1 = "node\<lparr>servedHouseholds := min (openHouseholds node) \<lfloor>totalFlow node / 10\<rfloor>,
                  directFlow := Some (of_int (directHouseholds node) * ?f)\<rparr>"
  from assms have "\<forall>c \<in> set (children node). valveId c \<noteq> key" by auto
  with assms(2) have "\<forall>c \<in> set (filter isOpen (children node)).
      map_of (map_set key ?n1 tree) (valveId c) = None"
    by (simp add: map_of_map_set)
  from giveToChildren_none [OF this]
  have "foldl (giveToChild ?f) (map_set key ?n1 tree) (filter isOpen (children node)) =
        map_set key ?n1 tree" .
  with True distributeNode_open [OF assms(1), of acc] show ?thesis
    by (auto simp: splitDirect_def)
qed

lemma distributeAll_split:
  assumes "distinct (map fst (pre @ post))"
    and "\<forall>kn \<in> set post. \<forall>c \<in> set (children (snd kn)). valveId c \<notin> fst ` set (pre @ post)"
  shows "\<exists>acc'. distributeAll (map fst post) (map (\<lambda>(k, n). (k, splitDirect n)) pre @ post, acc) =
           Inr (map (\<lambda>(k, n). (k, splitDirect n)) (pre @ post), acc')"
  using assms
proof (induction post arbitrary: pre acc)
  case Nil
  show ?case by simp
next
  case (Cons kn post)
  obtain k n where kn: "kn = (k, n)" by (cases kn)
  let ?pre' = "map (\<lambda>(k, n). (k, splitDirect n)) pre"
  let ?tree = "?pre' @ (k, n) # post"
  have keys': "fst ` set ?pre' = fst ` set pre" by force
  from Cons.prems(1) have "k \<notin> fst ` set pre" by (simp add: kn)
  with keys' have fresh: "k \<notin> fst ` set ?pre'" by simp
  have look: "map_of ?tree k = Some n" by (rule map_of_middle [OF fresh])
  have keys: "fst ` set ?tree = fst ` set (pre @ kn # post)"
    using keys' by (simp add: kn image_Un)
  have "\<forall>c \<in> set (children n). map_of ?tree (valveId c) = None"
  proof
    fix c assume "c \<in> set (children n)"
    with Cons.prems(2) have "valveId c \<notin> fst ` set (pre @ kn # post)" by (auto simp: kn)
    with keys have "valveId c \<notin> fst ` set ?tree" by simp
    then show "map_of ?tree (valveId c) = None" by (rule map_of_eq_None_iff [THEN iffD2])
  qed
  from distributeNode_split [OF look this, of acc] obtain a1 where
    "distributeNode k (?tree, acc) = Inr (map_set k (splitDirect n) ?tree, a1)"
    by blast
  then have s1: "distributeNode k (?tree, acc) =
      Inr (map (\<lambda>(k, n). (k, splitDirect n)) (pre @ [kn]) @ post, a1)"
    by (simp add: map_set_middle [OF fresh] kn)
  from Cons.prems have "distinct (map fst ((pre @ [kn]) @ post))"
    "\<forall>kn' \<in> set post. \<forall>c \<in> set (children (snd kn')). valveId c \<notin> fst ` set ((pre @ [kn]) @ post)"
    by simp_all
  from Cons.IH [OF this, of a1] obtain acc' where
    "distributeAll (map fst post) (map (\<lambda>(k, n). (k, splitDirect n)) (pre @ [kn]) @ post, a1) =
       Inr (map (\<lambda>(k, n). (k, splitDirect n)) ((pre @ [kn]) @ post), acc')"
    by blast
  with s1 show ?case by (simp add: kn)
qed

text \<open>
  C2: the share of an open child is computed and written nowhere. When no sub valve has
  the id of a main valve (\<^verbatim>\<open>valveId\<close> is the primary key), the returned tree is the tree
  of lines 597 to 633 with the served households and the direct flow of every entry set
  by the even split, and nothing else changed: the \<^verbatim>\<open>totalFlow\<close> of every entry is still
  its estimate of lines 619 to 633, every entry is that of a main valve, and no entry is
  that of a child, so no child's \<^verbatim>\<open>totalFlow\<close> is replaced by its share.
\<close>

theorem C2_child_share_lost:
  assumes "calculateSupplyOverview tanks valves pipelines = Inr r"
    and "\<forall>m \<in> set valves. \<forall>s \<in> set valves.
           category m = ''main'' \<longrightarrow> category s = ''sub'' \<longrightarrow> valveId s \<noteq> valveId m"
  shows "\<exists>flowData. calculateFlowPaths tanks valves pipelines = Inr flowData \<and>
           valveTree r = map (\<lambda>(k, n). splitDirect n) (estimatedTree flowData valves pipelines) \<and>
           map totalFlow (valveTree r) =
             map (\<lambda>(k, n). totalFlow n) (estimatedTree flowData valves pipelines) \<and>
           (\<forall>n \<in> set (valveTree r). category (valve n) = ''main'' \<and>
              (\<forall>c \<in> set (children n). category c = ''sub'' \<and>
                 (\<forall>e \<in> set (valveTree r). valveId (valve e) \<noteq> valveId c)))"
proof (rule calculateSupplyOverview_Inr [OF assms(1)])
  fix flowData tree3 acc
  let ?t = "estimatedTree flowData valves pipelines"
  assume fd: "calculateFlowPaths tanks valves pipelines = Inr flowData"
    and run: "distributeAll (map fst ?t) (?t, zeroTally) = Inr (tree3, acc)"
    and tr: "valveTree r = map snd tree3"
  have kids: "\<forall>kn \<in> set ?t. \<forall>c \<in> set (children (snd kn)). valveId c \<notin> fst ` set ([] @ ?t)"
  proof (intro ballI)
    fix kn c assume kn: "kn \<in> set ?t" and c: "c \<in> set (children (snd kn))"
    from kn have "(fst kn, snd kn) \<in> set ?t" by simp
    from estimatedTree_entries [OF this] c have sub: "c \<in> set valves" "category c = ''sub''"
      by (auto simp: childrenOf_def)
    show "valveId c \<notin> fst ` set ([] @ ?t)"
    proof
      assume "valveId c \<in> fst ` set ([] @ ?t)"
      then obtain n' where "(valveId c, n') \<in> set ?t" by auto
      from estimatedTree_entries [OF this] obtain m where
        "m \<in> set valves" "category m = ''main''" "valveId c = valveId m"
        by blast
      with sub assms(2) show False by blast
    qed
  qed
  from distributeAll_split [of "[]" ?t, OF _ kids, of zeroTally] estimatedTree_keys [of flowData valves pipelines]
  obtain acc' where "distributeAll (map fst ?t) (?t, zeroTally) =
      Inr (map (\<lambda>(k, n). (k, splitDirect n)) ?t, acc')"
    by auto
  with run have t3: "tree3 = map (\<lambda>(k, n). (k, splitDirect n)) ?t" by simp
  with tr have one: "valveTree r = map (\<lambda>(k, n). splitDirect n) ?t"
    by (simp add: case_prod_unfold comp_def)
  then have two: "map totalFlow (valveTree r) = map (\<lambda>(k, n). totalFlow n) ?t"
    by (simp add: case_prod_unfold comp_def splitDirect_def)
  have three: "\<forall>n \<in> set (valveTree r). category (valve n) = ''main'' \<and>
              (\<forall>c \<in> set (children n). category c = ''sub'' \<and>
                 (\<forall>e \<in> set (valveTree r). valveId (valve e) \<noteq> valveId c))"
  proof
    fix n assume "n \<in> set (valveTree r)"
    with tr obtain k where "(k, n) \<in> set tree3" by auto
    from distributed_entries [OF run this] obtain v where
      v: "v \<in> set valves" "category v = ''main''" "valve n = v" "children n = childrenOf valves v"
      by blast
    have "category c = ''sub'' \<and> (\<forall>e \<in> set (valveTree r). valveId (valve e) \<noteq> valveId c)"
      if "c \<in> set (children n)" for c
    proof -
      from that v(4) have sub: "c \<in> set valves" "category c = ''sub''"
        by (auto simp: childrenOf_def)
      have "valveId (valve e) \<noteq> valveId c" if "e \<in> set (valveTree r)" for e
      proof -
        from that tr obtain k' where "(k', e) \<in> set tree3" by auto
        from distributed_entries [OF run this] obtain m where
          m: "m \<in> set valves" "category m = ''main''" "valve e = m"
          by blast
        from assms(2) m(1,2) sub have "valveId c \<noteq> valveId m" by blast
        with m(3) show ?thesis by simp
      qed
      with sub show ?thesis by blast
    qed
    with v show "category (valve n) = ''main'' \<and>
              (\<forall>c \<in> set (children n). category c = ''sub'' \<and>
                 (\<forall>e \<in> set (valveTree r). valveId (valve e) \<noteq> valveId c))"
      by blast
  qed
  from fd one two three show ?thesis by blast
qed

lemma scenarioC_flow:
  "calculateFlowPaths [activeTank] [mainValve, subValve] [widePipe] = Inr (shortFlow 4)"
  by (simp add: flow_defs example_defs shortFlow_def geo)

lemma scenarioC_tree:
  "estimatedTree (shortFlow 4) [mainValve, subValve] [widePipe] = [(''M1'', scenarioC_node)]"
  by (simp add: estimatedTree_def supply_defs example_defs shortFlow_def scenarioC_node_def geo)

theorem C2_child_share_lost_witness:
  "calculateSupplyOverview [activeTank] [mainValve, subValve] [widePipe] = Inr scenarioC \<and>
   valveTree scenarioC = [splitDirect scenarioC_node] \<and>
   map (\<lambda>n. (valveId (valve n), map valveId (children n), directHouseholds n,
              servedHouseholds n, directFlow n, totalFlow n)) (valveTree scenarioC) =
     [(''M1'', [''S1''], 60, 50, Some 300, 500)] \<and>
   of_int (households subValve) * (500 / 100 :: real) = 200 \<and>
   stats_totalFlow (stats scenarioC) = 500"
proof -
  have ids: "\<forall>m \<in> set [mainValve, subValve]. \<forall>s \<in> set [mainValve, subValve].
           category m = ''main'' \<longrightarrow> category s = ''sub'' \<longrightarrow> valveId s \<noteq> valveId m"
    by (simp add: example_defs)
  from C2_child_share_lost [OF scenarioC_run ids] scenarioC_flow scenarioC_tree
  have "valveTree scenarioC = [splitDirect scenarioC_node]" by auto
  moreover have "map (\<lambda>n. (valveId (valve n), map valveId (children n), directHouseholds n,
              servedHouseholds n, directFlow n, totalFlow n)) (valveTree scenarioC) =
     [(''M1'', [''S1''], 60, 50, Some 300, 500)]"
    "of_int (households subValve) * (500 / 100 :: real) = 200"
    "stats_totalFlow (stats scenarioC) = 500"
    by (simp_all add: scenarioC_def example_defs)
  ultimately show ?thesis using scenarioC_run by simp
qed

section \<open>Sub valves without a parent\<close>







end
